theory Spec2Isabelle
  imports Complex_Main
begin

chapter \<open>The mini agentic system: condition extraction, record filter, memory and routing\<close>

text \<open>
  The development embeds the two entry points of the repository, \<^verbatim>\<open>src/main.py\<close> (plain
  sequential) and \<^verbatim>\<open>src/campaign.py\<close> (LangGraph state machine), function by function.
  Strings are \<^typ>\<open>string\<close>, a character being a code point below 256. The embedding
  speaks about ASCII text: on it Python's \<^verbatim>\<open>str.upper\<close>, \<^verbatim>\<open>str.lower\<close>, \<^verbatim>\<open>str.strip\<close> and the
  classes \<^verbatim>\<open>\w\<close>, \<^verbatim>\<open>\s\<close>, \<^verbatim>\<open>\d\<close> of \<^verbatim>\<open>re\<close> are the tables below; the two characters above 127
  that Python counts as whitespace are in the table of whitespace too, the letters above
  127 are not modelled. What the code takes from outside (the language model, the HTTP
  provider, \<^verbatim>\<open>float\<close>, \<^verbatim>\<open>re.compile\<close> on a run-time pattern, \<^verbatim>\<open>json.loads\<close>) is a parameter.
\<close>

section \<open>Python strings (ASCII fragment)\<close>

abbreviation squote :: char where "squote \<equiv> CHR 0x27"
abbreviation dquote :: char where "dquote \<equiv> CHR 0x22"

definition lower_letters :: string where
  "lower_letters = ''abcdefghijklmnopqrstuvwxyz''"

definition upper_letters :: string where
  "upper_letters = ''ABCDEFGHIJKLMNOPQRSTUVWXYZ''"

definition digit_chars :: string where
  "digit_chars = ''0123456789''"

text \<open>The characters below 256 for which \<^verbatim>\<open>str.isspace\<close> holds, which are those \<^verbatim>\<open>str.strip\<close>
  removes and \<^verbatim>\<open>\s\<close> matches: tab to carriage return, the four separators 0x1C to 0x1F, the
  space, and above 127 the next-line character 0x85 and the no-break space 0xA0.\<close>

definition space_chars :: string where
  "space_chars = [CHR 0x09, CHR 0x0A, CHR 0x0B, CHR 0x0C, CHR 0x0D,
                  CHR 0x1C, CHR 0x1D, CHR 0x1E, CHR 0x1F, CHR 0x20, CHR 0x85, CHR 0xA0]"

text \<open>Text of ASCII characters, on which the tables of letters and digits are Python's.\<close>

definition is_ascii :: "string \<Rightarrow> bool" where
  "is_ascii s = list_all (\<lambda>c. (of_char c :: nat) < 128) s"

definition is_lower :: "char \<Rightarrow> bool" where
  "is_lower c = (c \<in> set lower_letters)"

definition is_space :: "char \<Rightarrow> bool" where
  "is_space c = (c \<in> set space_chars)"

definition is_digit :: "char \<Rightarrow> bool" where
  "is_digit c = (c \<in> set digit_chars)"

definition is_word :: "char \<Rightarrow> bool" where
  "is_word c = (c \<in> set (lower_letters @ upper_letters @ digit_chars @ ''_''))"

definition is_quote :: "char \<Rightarrow> bool" where
  "is_quote c = (c = squote \<or> c = dquote)"

definition upper_char :: "char \<Rightarrow> char" where
  "upper_char c = (case map_of (zip lower_letters upper_letters) c of Some u \<Rightarrow> u | None \<Rightarrow> c)"

definition lower_char :: "char \<Rightarrow> char" where
  "lower_char c = (case map_of (zip upper_letters lower_letters) c of Some l \<Rightarrow> l | None \<Rightarrow> c)"

definition upper :: "string \<Rightarrow> string" where
  "upper s = map upper_char s"

definition lower :: "string \<Rightarrow> string" where
  "lower s = map lower_char s"

definition py_strip :: "string \<Rightarrow> string" where
  "py_strip s = rev (dropWhile is_space (rev (dropWhile is_space s)))"

fun startswith :: "string \<Rightarrow> string \<Rightarrow> bool" where
  "startswith s [] = True"
| "startswith [] (p # ps) = False"
| "startswith (x # xs) (p # ps) = (x = p \<and> startswith xs ps)"

definition endswith :: "string \<Rightarrow> string \<Rightarrow> bool" where
  "endswith s p = startswith (rev s) (rev p)"

text \<open>\<^verbatim>\<open>sub in s\<close> on strings.\<close>

fun contains :: "string \<Rightarrow> string \<Rightarrow> bool" where
  "contains sub [] = (sub = [])"
| "contains sub (x # xs) = (startswith (x # xs) sub \<or> contains sub xs)"

text \<open>\<^verbatim>\<open>s.split(sep)\<close>: the pieces between the occurrences of \<open>sep\<close>, found from the left
  without overlap. \<open>acc\<close> is the piece being read.\<close>

function split_from :: "string \<Rightarrow> string \<Rightarrow> string \<Rightarrow> string list" where
  "split_from sep acc s =
     (if s = [] then [acc]
      else if sep \<noteq> [] \<and> startswith s sep then acc # split_from sep [] (drop (length sep) s)
      else split_from sep (acc @ [hd s]) (tl s))"
  by pat_completeness auto
termination
  by (relation "measure (\<lambda>(sep, acc, s). length s)") auto

declare split_from.simps [simp del]

definition py_split :: "string \<Rightarrow> string \<Rightarrow> string list" where
  "py_split s sep = split_from sep [] s"

text \<open>\<^verbatim>\<open>value.replace('%', '.*')\<close>.\<close>

definition replace_percent :: "string \<Rightarrow> string" where
  "replace_percent v = concat (map (\<lambda>c. if c = CHR ''%'' then ''.*'' else [c]) v)"

datatype py_error = IndexError | KeyError | ValueError | TypeError | RegexError | ProviderError

text \<open>\<^verbatim>\<open>xs[i]\<close> for a non-negative index.\<close>

definition py_index :: "'a list \<Rightarrow> nat \<Rightarrow> py_error + 'a" where
  "py_index xs i = (if i < length xs then Inr (xs ! i) else Inl IndexError)"

text \<open>\<^verbatim>\<open>str(n)\<close> for an integer.\<close>

fun nat_digits :: "nat \<Rightarrow> string" where
  "nat_digits n =
     (if n < 10 then [digit_chars ! n] else nat_digits (n div 10) @ [digit_chars ! (n mod 10)])"

declare nat_digits.simps [simp del]

definition str_int :: "int \<Rightarrow> string" where
  "str_int i = (if i < 0 then CHR ''-'' # nat_digits (nat (- i)) else nat_digits (nat i))"

section \<open>The regular expressions of the condition extractor\<close>

text \<open>
  The six patterns of \<^verbatim>\<open>extract_conditions\<close> are built from character classes, \<^verbatim>\<open>*\<close> and \<^verbatim>\<open>+\<close>
  on a class, literals, groups, sequence and alternation. \<open>rmatch r s\<close> lists, in the order a
  backtracking matcher tries them, the ways \<open>r\<close> matches a prefix of \<open>s\<close>: the captured groups
  and the text left over. Greedy repetition tries the longest run first, alternation the left
  branch first. All patterns are compiled with \<^verbatim>\<open>re.IGNORECASE\<close>, so a literal matches in
  either case.
\<close>

datatype cclass = CWord | CSpace | CDigit | CNotQuote | CQuote | CLit char

fun cmem :: "cclass \<Rightarrow> char \<Rightarrow> bool" where
  "cmem CWord c = is_word c"
| "cmem CSpace c = is_space c"
| "cmem CDigit c = is_digit c"
| "cmem CNotQuote c = (\<not> is_quote c)"
| "cmem CQuote c = is_quote c"
| "cmem (CLit l) c = (upper_char c = upper_char l)"

datatype regex =
    Eps
  | Atom cclass
  | Star cclass
  | Plus cclass
  | Group regex
  | Seq regex regex
  | Alt regex regex

fun rmatch :: "regex \<Rightarrow> string \<Rightarrow> (string list \<times> string) list" where
  "rmatch Eps s = [([], s)]"
| "rmatch (Atom c) s = (case s of [] \<Rightarrow> [] | x # xs \<Rightarrow> if cmem c x then [([], xs)] else [])"
| "rmatch (Star c) s = map (\<lambda>n. ([], drop n s)) (rev [0 ..< Suc (length (takeWhile (cmem c) s))])"
| "rmatch (Plus c) s = map (\<lambda>n. ([], drop n s)) (rev [1 ..< Suc (length (takeWhile (cmem c) s))])"
| "rmatch (Group r) s =
     map (\<lambda>(caps, rest). (take (length s - length rest) s # caps, rest)) (rmatch r s)"
| "rmatch (Seq r1 r2) s =
     concat (map (\<lambda>(c1, rest1). map (\<lambda>(c2, rest2). (c1 @ c2, rest2)) (rmatch r2 rest1))
                 (rmatch r1 s))"
| "rmatch (Alt r1 r2) s = rmatch r1 s @ rmatch r2 s"

text \<open>The match a backtracking matcher reports at the start of \<open>s\<close>: the first one.\<close>

definition match_at :: "regex \<Rightarrow> string \<Rightarrow> (string list \<times> string) option" where
  "match_at r s = (case rmatch r s of [] \<Rightarrow> None | m # _ \<Rightarrow> Some m)"

text \<open>\<^verbatim>\<open>re.search(r, s)\<close>: the match at the leftmost position that has one; the result is
  \<^verbatim>\<open>match.groups()\<close>.\<close>

fun re_search :: "regex \<Rightarrow> string \<Rightarrow> string list option" where
  "re_search r [] = map_option fst (match_at r [])"
| "re_search r (x # xs) =
     (case match_at r (x # xs) of Some m \<Rightarrow> Some (fst m) | None \<Rightarrow> re_search r xs)"

text \<open>\<^verbatim>\<open>re.split(r, s)\<close> for a pattern without groups. The separator pattern of the source
  matches no empty text; an empty match is passed over here.\<close>

function re_split_from :: "regex \<Rightarrow> string \<Rightarrow> string \<Rightarrow> string list" where
  "re_split_from r acc s =
     (if s = [] then [acc]
      else (case match_at r s of
              Some (caps, rest) \<Rightarrow>
                if length rest < length s then acc # re_split_from r [] rest
                else re_split_from r (acc @ [hd s]) (tl s)
            | None \<Rightarrow> re_split_from r (acc @ [hd s]) (tl s)))"
  by pat_completeness auto
termination
  by (relation "measure (\<lambda>(r, acc, s). length s)") auto

declare re_split_from.simps [simp del]

definition re_split :: "regex \<Rightarrow> string \<Rightarrow> string list" where
  "re_split r s = re_split_from r [] s"

primrec lit :: "string \<Rightarrow> regex" where
  "lit [] = Eps"
| "lit (c # cs) = Seq (Atom (CLit c)) (lit cs)"

primrec seqs :: "regex list \<Rightarrow> regex" where
  "seqs [] = Eps"
| "seqs (r # rs) = Seq r (seqs rs)"

text \<open>\<^verbatim>\<open>\s+AND\s+|\s+OR\s+\<close>\<close>

definition split_pattern :: regex where
  "split_pattern = Alt (seqs [Plus CSpace, lit ''AND'', Plus CSpace])
                       (seqs [Plus CSpace, lit ''OR'', Plus CSpace])"

text \<open>\<^verbatim>\<open>(\w+)\s*=\s*['"]([^'"]+)['"]\<close>\<close>

definition pat_string_eq :: regex where
  "pat_string_eq = seqs [Group (Plus CWord), Star CSpace, Atom (CLit (CHR ''='')), Star CSpace,
                         Atom CQuote, Group (Plus CNotQuote), Atom CQuote]"

text \<open>\<^verbatim>\<open>(\w+)\s*=\s*(\d+)\<close>\<close>

definition pat_num_eq :: regex where
  "pat_num_eq = seqs [Group (Plus CWord), Star CSpace, Atom (CLit (CHR ''='')), Star CSpace,
                      Group (Plus CDigit)]"

text \<open>\<^verbatim>\<open>(\w+)\s*>\s*(\d+)\<close>\<close>

definition pat_gt :: regex where
  "pat_gt = seqs [Group (Plus CWord), Star CSpace, Atom (CLit (CHR ''>'')), Star CSpace,
                  Group (Plus CDigit)]"

text \<open>\<^verbatim>\<open>(\w+)\s*<\s*(\d+)\<close>\<close>

definition pat_lt :: regex where
  "pat_lt = seqs [Group (Plus CWord), Star CSpace, Atom (CLit (CHR ''<'')), Star CSpace,
                  Group (Plus CDigit)]"

text \<open>\<^verbatim>\<open>(\w+)\s*LIKE\s*['"]([^'"]+)['"]\<close>\<close>

definition pat_like :: regex where
  "pat_like = seqs [Group (Plus CWord), Star CSpace, lit ''LIKE'', Star CSpace,
                    Atom CQuote, Group (Plus CNotQuote), Atom CQuote]"

definition patterns :: "regex list" where
  "patterns = [pat_string_eq, pat_num_eq, pat_gt, pat_lt, pat_like]"

section \<open>Condition extraction\<close>

record condition =
  c_field :: string
  c_operator :: string
  c_value :: string

text \<open>The inner loop over \<open>patterns\<close>: the groups of the first pattern that is found.\<close>

fun first_match :: "regex list \<Rightarrow> string \<Rightarrow> string list option" where
  "first_match [] part = None"
| "first_match (p # ps) part =
     (case re_search p part of Some caps \<Rightarrow> Some caps | None \<Rightarrow> first_match ps part)"

text \<open>The body of the loop over the parts. Every pattern has two groups, \<open>field\<close> and
  \<open>value\<close>. The operator is read off the whole part, not off the pattern that matched.\<close>

definition clause_condition :: "string \<Rightarrow> condition option" where
  "clause_condition part0 =
     (let part1 = py_strip part0;
          part = (if endswith part1 '';'' then butlast part1 else part1)
      in case first_match patterns part of
           Some [fld, val] \<Rightarrow>
             Some (if CHR ''>'' \<in> set part
                     then \<lparr>c_field = fld, c_operator = ''>'', c_value = val\<rparr>
                   else if CHR ''<'' \<in> set part
                     then \<lparr>c_field = fld, c_operator = ''<'', c_value = val\<rparr>
                   else if contains ''LIKE'' (upper part)
                     then \<lparr>c_field = fld, c_operator = ''LIKE'', c_value = replace_percent val\<rparr>
                   else \<lparr>c_field = fld, c_operator = ''='', c_value = val\<rparr>)
         | _ \<Rightarrow> None)"

definition extract_conditions :: "string \<Rightarrow> condition list" where
  "extract_conditions conditions_str =
     List.map_filter clause_condition (re_split split_pattern conditions_str)"

definition parse_sql_conditions :: "string \<Rightarrow> py_error + condition list" where
  "parse_sql_conditions sql_query =
     (if contains ''WHERE'' (upper sql_query) then
        (case py_index (py_split (upper sql_query) ''WHERE'') 1 of
           Inl e \<Rightarrow> Inl e
         | Inr w1 \<Rightarrow>
            (case (if contains ''GROUP BY'' w1 then py_index (py_split w1 ''GROUP BY'') 0
                   else Inr w1) of
               Inl e \<Rightarrow> Inl e
             | Inr w2 \<Rightarrow>
                (case (if contains ''ORDER BY'' w2 then py_index (py_split w2 ''ORDER BY'') 0
                       else Inr w2) of
                   Inl e \<Rightarrow> Inl e
                 | Inr w3 \<Rightarrow> Inr (extract_conditions (py_strip w3)))))
      else Inr [])"

section \<open>Records and the record filter\<close>

text \<open>A Python float is a finite value or one of the three special values; an integer compares
  with a float by its exact value.\<close>

datatype pyfloat = Finite real | PosInf | NegInf | NaN

datatype pyval = PStr string | PInt int | PFloat pyfloat

type_synonym item = "(string \<times> pyval) list"

text \<open>What \<^verbatim>\<open>apply_conditions\<close> calls from the Python library on run-time text:
  \<^verbatim>\<open>float(value)\<close>, \<^verbatim>\<open>str(x)\<close> of a float, and \<^verbatim>\<open>re.compile(value, re.IGNORECASE)\<close>, which
  raises or gives a pattern whose \<^verbatim>\<open>search\<close> finds a match in a text or not.\<close>

record pylib =
  float_of_str :: "string \<Rightarrow> py_error + pyfloat"
  str_of_float :: "pyfloat \<Rightarrow> string"
  regex_compile :: "string \<Rightarrow> py_error + (string \<Rightarrow> bool)"

definition py_str :: "pylib \<Rightarrow> pyval \<Rightarrow> string" where
  "py_str lib v = (case v of PStr s \<Rightarrow> s | PInt i \<Rightarrow> str_int i | PFloat f \<Rightarrow> str_of_float lib f)"

text \<open>\<^verbatim>\<open>isinstance(x, (int, float))\<close>, with the value as a float for the comparison.\<close>

definition numeric :: "pyval \<Rightarrow> pyfloat option" where
  "numeric v = (case v of PStr s \<Rightarrow> None | PInt i \<Rightarrow> Some (Finite (of_int i)) | PFloat f \<Rightarrow> Some f)"

fun float_gt :: "pyfloat \<Rightarrow> pyfloat \<Rightarrow> bool" where
  "float_gt (Finite a) (Finite b) = (b < a)"
| "float_gt (Finite a) NegInf = True"
| "float_gt PosInf (Finite b) = True"
| "float_gt PosInf NegInf = True"
| "float_gt a b = False"

definition float_lt :: "pyfloat \<Rightarrow> pyfloat \<Rightarrow> bool" where
  "float_lt a b = float_gt b a"

text \<open>One pass of the inner loop of \<^verbatim>\<open>apply_conditions\<close>: \<open>Inr False\<close> is
  \<^verbatim>\<open>matches_all = False; break\<close>, \<open>Inl e\<close> an exception of \<^verbatim>\<open>float\<close> or \<^verbatim>\<open>re.compile\<close>.\<close>

definition check_condition :: "pylib \<Rightarrow> item \<Rightarrow> condition \<Rightarrow> py_error + bool" where
  "check_condition lib itm c =
     (case map_of itm (c_field c) of
        None \<Rightarrow> Inr False
      | Some v \<Rightarrow>
          if c_operator c = ''='' then Inr (py_str lib v = c_value c)
          else if c_operator c = ''>'' then
            (case numeric v of
               None \<Rightarrow> Inr False
             | Some x \<Rightarrow> (case float_of_str lib (c_value c) of
                            Inl e \<Rightarrow> Inl e | Inr y \<Rightarrow> Inr (float_gt x y)))
          else if c_operator c = ''<'' then
            (case numeric v of
               None \<Rightarrow> Inr False
             | Some x \<Rightarrow> (case float_of_str lib (c_value c) of
                            Inl e \<Rightarrow> Inl e | Inr y \<Rightarrow> Inr (float_lt x y)))
          else if c_operator c = ''LIKE'' then
            (case regex_compile lib (c_value c) of
               Inl e \<Rightarrow> Inl e | Inr pattern \<Rightarrow> Inr (pattern (py_str lib v)))
          else Inr True)"

fun matches_all :: "pylib \<Rightarrow> item \<Rightarrow> condition list \<Rightarrow> py_error + bool" where
  "matches_all lib itm [] = Inr True"
| "matches_all lib itm (c # cs) =
     (case check_condition lib itm c of
        Inl e \<Rightarrow> Inl e
      | Inr ok \<Rightarrow> if ok then matches_all lib itm cs else Inr False)"

fun filter_items :: "pylib \<Rightarrow> item list \<Rightarrow> condition list \<Rightarrow> py_error + item list" where
  "filter_items lib [] conds = Inr []"
| "filter_items lib (itm # rest) conds =
     (case matches_all lib itm conds of
        Inl e \<Rightarrow> Inl e
      | Inr keep \<Rightarrow>
          (case filter_items lib rest conds of
             Inl e \<Rightarrow> Inl e
           | Inr out \<Rightarrow> Inr (if keep then itm # out else out)))"

definition apply_conditions :: "pylib \<Rightarrow> item list \<Rightarrow> condition list \<Rightarrow> py_error + item list" where
  "apply_conditions lib data conds = (if conds = [] then Inr data else filter_items lib data conds)"

text \<open>The filter of the specification, in its words: a record is kept iff it satisfies every
  condition. A missing field fails; \<open>=\<close> compares \<^verbatim>\<open>str\<close> of the field with the value; \<open>>\<close> and
  \<open><\<close> need a numeric field and the comparison with \<^verbatim>\<open>float(value)\<close>; \<open>LIKE\<close> searches the
  value as a regular expression in \<^verbatim>\<open>str\<close> of the field.\<close>

definition condition_holds :: "pylib \<Rightarrow> item \<Rightarrow> condition \<Rightarrow> bool" where
  "condition_holds lib itm c =
     (case map_of itm (c_field c) of
        None \<Rightarrow> False
      | Some v \<Rightarrow>
          (c_operator c = ''='' \<and> py_str lib v = c_value c) \<or>
          (c_operator c = ''>'' \<and>
             (\<exists>x y. numeric v = Some x \<and> float_of_str lib (c_value c) = Inr y \<and> float_gt x y)) \<or>
          (c_operator c = ''<'' \<and>
             (\<exists>x y. numeric v = Some x \<and> float_of_str lib (c_value c) = Inr y \<and> float_lt x y)) \<or>
          (c_operator c = ''LIKE'' \<and>
             (\<exists>pattern. regex_compile lib (c_value c) = Inr pattern \<and> pattern (py_str lib v))))"

definition satisfies_all :: "pylib \<Rightarrow> condition list \<Rightarrow> item \<Rightarrow> bool" where
  "satisfies_all lib conds itm = (\<forall>c \<in> set conds. condition_holds lib itm c)"

text \<open>The records a call hands back: none when it raises.\<close>

definition kept :: "py_error + item list \<Rightarrow> item list" where
  "kept r = (case r of Inl e \<Rightarrow> [] | Inr out \<Rightarrow> out)"

text \<open>\<^verbatim>\<open>self.sample_data\<close> of \<^verbatim>\<open>src/main.py\<close> and of \<^verbatim>\<open>src/campaign.py\<close>.\<close>

definition sample_data :: "item list" where
  "sample_data =
     [[(''campaign_id'', PStr ''CAMP_A''), (''influenced_revenue'', PInt 150000),
       (''impressions'', PInt 100000), (''clicks'', PInt 2500),
       (''channel'', PStr ''WhatsApp''), (''run_date'', PStr ''2025-07-05'')],
      [(''campaign_id'', PStr ''CAMP_B''), (''influenced_revenue'', PInt 200000),
       (''impressions'', PInt 80000), (''clicks'', PInt 4000),
       (''channel'', PStr ''Email''), (''run_date'', PStr ''2025-07-10'')],
      [(''campaign_id'', PStr ''CAMP_C''), (''influenced_revenue'', PInt 175000),
       (''impressions'', PInt 120000), (''clicks'', PInt 3600),
       (''channel'', PStr ''SMS''), (''run_date'', PStr ''2025-07-15'')],
      [(''campaign_id'', PStr ''CAMP_D''), (''influenced_revenue'', PInt 90000),
       (''impressions'', PInt 60000), (''clicks'', PInt 1200),
       (''channel'', PStr ''Push Notification''), (''run_date'', PStr ''2025-07-20'')]]"

definition campaign_sample_data :: "item list" where
  "campaign_sample_data = take 2 sample_data"

text \<open>An instance of the library for the examples: \<^verbatim>\<open>float\<close> on a string of digits is its
  value, and a pattern of word characters only is searched as a literal, ignoring case. Other
  text is reported as an error by this instance.\<close>

definition digits_value :: "string \<Rightarrow> nat" where
  "digits_value s = foldl (\<lambda>a c. 10 * a + length (takeWhile (\<lambda>d. d \<noteq> c) digit_chars)) 0 s"

definition example_lib :: pylib where
  "example_lib =
     \<lparr>float_of_str = (\<lambda>s. if s \<noteq> [] \<and> list_all is_digit s
                           then Inr (Finite (real (digits_value s))) else Inl ValueError),
      str_of_float = (\<lambda>f. ''?''),
      regex_compile = (\<lambda>p. if list_all is_word p then Inr (\<lambda>t. contains (upper p) (upper t))
                            else Inl RegexError)\<rparr>"

section \<open>Results, memory and the language model\<close>

text \<open>Values decoded from JSON, as Python objects; \<open>JNull\<close> is \<^verbatim>\<open>None\<close>. An object is the list
  of its members, each key once.\<close>

datatype json =
    JNull
  | JBool bool
  | JInt int
  | JFloat pyfloat
  | JStr string
  | JArr "json list"
  | JObj "(string \<times> json) list"

text \<open>Truth value of a Python object in \<^verbatim>\<open>if x\<close>.\<close>

fun truthy :: "json \<Rightarrow> bool" where
  "truthy JNull = False"
| "truthy (JBool b) = b"
| "truthy (JInt i) = (i \<noteq> 0)"
| "truthy (JFloat f) = (f \<noteq> Finite 0)"
| "truthy (JStr s) = (s \<noteq> [])"
| "truthy (JArr xs) = (xs \<noteq> [])"
| "truthy (JObj kvs) = (kvs \<noteq> [])"

datatype raw_data = Records "item list" | Payload json

text \<open>The result dictionaries, one constructor for each shape the handlers build; \<open>tool_of\<close>
  is the entry \<^verbatim>\<open>"tool"\<close>. \<open>ReportingResult\<close> carries \<^verbatim>\<open>formatted_output\<close>, \<^verbatim>\<open>data_source\<close>
  (only \<^verbatim>\<open>src/campaign.py\<close> sets it) and \<^verbatim>\<open>raw_data\<close>.\<close>

datatype result =
    DataResult string "item list" string
  | ReportingResult string "string option" raw_data
  | MemoryEmptyResult string string
  | MemoryResult "(string \<times> result) list" string
  | GreetingResult string
  | FallbackResult string

fun tool_of :: "result \<Rightarrow> string" where
  "tool_of (DataResult q d s) = ''data_tool''"
| "tool_of (ReportingResult f src raw) = ''reporting_tool''"
| "tool_of (MemoryEmptyResult r s) = ''memory_tool''"
| "tool_of (MemoryResult prev s) = ''memory_tool''"
| "tool_of (GreetingResult r) = ''greeting''"
| "tool_of (FallbackResult r) = ''fallback''"

type_synonym memory_entry = "string \<times> result"

text \<open>The requests sent to the language model, by what the prompt is built from: the query
  to classify, the query to turn into SQL, the filtered records to summarise, the data to
  format, the memory to recall from.\<close>

datatype llm_request =
    Classify string
  | GenerateSql string
  | Summarize "item list" string
  | FormatReport string raw_data
  | Recall string "memory_entry list"

definition hello_response :: string where
  "hello_response = ''Hello! I'' @ [squote] @ ''m your data analytics assistant. How can I help you today?''"

definition generic_response :: string where
  "generic_response = ''I can help with campaign analytics queries like revenue, performance, CTR, etc.''"

definition no_memory_result :: result where
  "no_memory_result =
     MemoryEmptyResult ''No previous queries found in memory.''
       (''I don'' @ [squote] @ ''t have any previous results to reference yet.'')"

definition greetings :: "string list" where
  "greetings = [''hi'', ''hello'', ''hey'', ''good morning'', ''good afternoon'', ''good evening'']"

text \<open>\<^verbatim>\<open>handle_greeting\<close> of \<^verbatim>\<open>src/main.py\<close>; \<^verbatim>\<open>process_greeting_node\<close> of \<^verbatim>\<open>src/campaign.py\<close>
  builds the same result.\<close>

definition handle_greeting :: "string \<Rightarrow> result" where
  "handle_greeting query =
     GreetingResult (if list_ex (\<lambda>greeting. contains greeting (lower query)) greetings
                     then hello_response else generic_response)"

section \<open>\<^verbatim>\<open>src/main.py\<close>: the sequential entry point\<close>

text \<open>The object state: \<^verbatim>\<open>self.memory\<close>, and the log of the requests sent to the model so
  far, kept to count them. \<open>llm req\<close> is what \<^verbatim>\<open>get_llm_response\<close> returns for a request: the
  reply, or the error text.\<close>

record agent =
  memory :: "memory_entry list"
  llm_calls :: "llm_request list"

text \<open>Every entry of a memory is the result of the data tool or of the reporting tool.\<close>

definition recorded_only :: "memory_entry list \<Rightarrow> bool" where
  "recorded_only m = (\<forall>(q, r) \<in> set m. tool_of r \<in> set [''data_tool'', ''reporting_tool''])"

definition init_agent :: agent where
  "init_agent = \<lparr>memory = [], llm_calls = []\<rparr>"

definition ask :: "(llm_request \<Rightarrow> string) \<Rightarrow> llm_request \<Rightarrow> agent \<Rightarrow> string \<times> agent" where
  "ask llm req a = (llm req, a\<lparr>llm_calls := llm_calls a @ [req]\<rparr>)"

definition add_to_memory :: "string \<Rightarrow> result \<Rightarrow> agent \<Rightarrow> agent" where
  "add_to_memory query res a =
     a\<lparr>memory := (if 2 \<le> length (memory a) then tl (memory a) else memory a) @ [(query, res)]\<rparr>"

definition route_query :: "(llm_request \<Rightarrow> string) \<Rightarrow> string \<Rightarrow> agent \<Rightarrow> string \<times> agent" where
  "route_query llm query a =
     (let (reply, a1) = ask llm (Classify query) a in (lower (py_strip reply), a1))"

definition data_tool ::
  "pylib \<Rightarrow> (llm_request \<Rightarrow> string) \<Rightarrow> string \<Rightarrow> agent \<Rightarrow> (py_error + result) \<times> agent" where
  "data_tool lib llm query a =
     (let (sql_query, a1) = ask llm (GenerateSql query) a in
      case parse_sql_conditions sql_query of
        Inl e \<Rightarrow> (Inl e, a1)
      | Inr conditions \<Rightarrow>
          (case apply_conditions lib sample_data conditions of
             Inl e \<Rightarrow> (Inl e, a1)
           | Inr filtered_data \<Rightarrow>
               (let (summary, a2) = ask llm (Summarize filtered_data query) a1
                in (Inr (DataResult sql_query filtered_data summary), a2))))"

definition reporting_tool :: "(llm_request \<Rightarrow> string) \<Rightarrow> string \<Rightarrow> agent \<Rightarrow> result \<times> agent" where
  "reporting_tool llm query a =
     (let (formatted_output, a1) = ask llm (FormatReport query (Records sample_data)) a
      in (ReportingResult formatted_output None (Records sample_data), a1))"

definition memory_tool :: "(llm_request \<Rightarrow> string) \<Rightarrow> string \<Rightarrow> agent \<Rightarrow> result \<times> agent" where
  "memory_tool llm query a =
     (if memory a = [] then (no_memory_result, a)
      else (let (summary, a1) = ask llm (Recall query (memory a)) a
            in (MemoryResult (memory a) summary, a1)))"

text \<open>The handler chosen for a normalised reply, by substring containment, in the order of
  the \<^verbatim>\<open>if\<close>/\<^verbatim>\<open>elif\<close> chain.\<close>

datatype handler = DataTool | ReportingTool | MemoryTool | Greeting | Fallback

definition select_handler :: "string \<Rightarrow> handler" where
  "select_handler tool =
     (if contains ''data_tool'' tool then DataTool
      else if contains ''reporting_tool'' tool then ReportingTool
      else if contains ''memory_tool'' tool then MemoryTool
      else if contains ''greeting'' tool then Greeting
      else Fallback)"

definition run_handler ::
  "pylib \<Rightarrow> (llm_request \<Rightarrow> string) \<Rightarrow> handler \<Rightarrow> string \<Rightarrow> agent \<Rightarrow> (py_error + result) \<times> agent" where
  "run_handler lib llm h query a =
     (case h of
        DataTool \<Rightarrow> data_tool lib llm query a
      | ReportingTool \<Rightarrow> (let (r, a1) = reporting_tool llm query a in (Inr r, a1))
      | MemoryTool \<Rightarrow> (let (r, a1) = memory_tool llm query a in (Inr r, a1))
      | Greeting \<Rightarrow> (Inr (handle_greeting query), a)
      | Fallback \<Rightarrow> (Inr (FallbackResult generic_response), a))"

definition process_query ::
  "pylib \<Rightarrow> (llm_request \<Rightarrow> string) \<Rightarrow> string \<Rightarrow> agent \<Rightarrow> (py_error + result) \<times> agent" where
  "process_query lib llm query a =
     (let (tool, a1) = route_query llm query a;
          (r, a2) = run_handler lib llm (select_handler tool) query a1
      in case r of
           Inl e \<Rightarrow> (Inl e, a2)
         | Inr res \<Rightarrow>
             (Inr res, if tool_of res \<in> set [''data_tool'', ''reporting_tool'']
                       then add_to_memory query res a2 else a2))"

text \<open>A run of the process: the queries one after the other on the same object, each with the
  model's behaviour during that query.\<close>

fun process_all :: "pylib \<Rightarrow> ((llm_request \<Rightarrow> string) \<times> string) list \<Rightarrow> agent \<Rightarrow> agent" where
  "process_all lib [] a = a"
| "process_all lib ((llm, query) # rest) a = process_all lib rest (snd (process_query lib llm query a))"

section \<open>\<^verbatim>\<open>get_llm_response\<close> of \<^verbatim>\<open>src/main.py\<close>\<close>

text \<open>The exceptions the body of the \<^verbatim>\<open>try\<close> can raise: those of \<^verbatim>\<open>requests.post\<close>,
  \<^verbatim>\<open>raise_for_status\<close> and \<^verbatim>\<open>response.json\<close>, given by the provider, and those of the
  subscripts. All are subclasses of \<^verbatim>\<open>Exception\<close>.\<close>

datatype exn = RequestFailed string | HttpError string | JsonDecodeError string
  | KeyErr string | IndexErr | TypeErr










section \<open>\<^verbatim>\<open>src/campaign.py\<close>: the state machine\<close>

text \<open>\<^verbatim>\<open>AgentState\<close>; \<open>st_calls\<close> logs the requests sent to the model. \<^verbatim>\<open>messages\<close> is never
  read and is left out. Here a call of the model is not guarded: \<open>llm req\<close> is the reply or
  the exception, which propagates.\<close>

record agent_state =
  st_query :: string
  st_tool :: "string option"
  st_result :: "result option"
  st_json_data :: json
  st_memory :: "memory_entry list"
  st_calls :: "llm_request list"

definition invoke ::
  "(llm_request \<Rightarrow> py_error + string) \<Rightarrow> llm_request \<Rightarrow> agent_state \<Rightarrow> py_error + (string \<times> agent_state)" where
  "invoke llm req st =
     (case llm req of
        Inl e \<Rightarrow> Inl e
      | Inr reply \<Rightarrow> Inr (reply, st\<lparr>st_calls := st_calls st @ [req]\<rparr>))"

text \<open>\<^verbatim>\<open>re.findall\<close> of \<^verbatim>\<open>\{.*\}\<close> or \<^verbatim>\<open>\[.*\]\<close> with \<^verbatim>\<open>re.DOTALL\<close>: the text from the first opening
  character to the last closing one after it, if there is one; no second match can follow.\<close>

definition find_enclosed :: "char \<Rightarrow> char \<Rightarrow> string \<Rightarrow> string list" where
  "find_enclosed opening closing s =
     (let t = dropWhile (\<lambda>c. c \<noteq> opening) s;
          u = rev (dropWhile (\<lambda>c. c \<noteq> closing) (rev (drop 1 t)))
      in if t = [] \<or> u = [] then [] else [opening # u])"

text \<open>One pass of the loop over the matches: \<open>Some j\<close> is \<^verbatim>\<open>return j\<close>, \<open>None\<close> is
  \<^verbatim>\<open>continue\<close>. \<open>loads\<close> is \<^verbatim>\<open>json.loads\<close>, \<open>None\<close> its \<^verbatim>\<open>JSONDecodeError\<close>.\<close>

definition try_loads :: "(string \<Rightarrow> json option) \<Rightarrow> string \<Rightarrow> json option" where
  "try_loads loads m =
     (case loads m of
        Some j \<Rightarrow> Some j
      | None \<Rightarrow>
          (let cleaned = py_strip m;
               cleaned_match = (if endswith cleaned '','' then butlast cleaned else cleaned)
           in loads cleaned_match))"

fun first_loaded :: "(string \<Rightarrow> json option) \<Rightarrow> string list \<Rightarrow> json option" where
  "first_loaded loads [] = None"
| "first_loaded loads (m # ms) =
     (case try_loads loads m of Some j \<Rightarrow> Some j | None \<Rightarrow> first_loaded loads ms)"

definition extract_json_from_query :: "(string \<Rightarrow> json option) \<Rightarrow> string \<Rightarrow> json" where
  "extract_json_from_query loads query =
     (case first_loaded loads
             (find_enclosed (CHR ''{'') (CHR ''}'') query @ find_enclosed (CHR ''['') (CHR '']'') query) of
        Some j \<Rightarrow> j
      | None \<Rightarrow> JNull)"

definition extract_json_node :: "(string \<Rightarrow> json option) \<Rightarrow> agent_state \<Rightarrow> agent_state" where
  "extract_json_node loads st = st\<lparr>st_json_data := extract_json_from_query loads (st_query st)\<rparr>"

definition route_query_node ::
  "(llm_request \<Rightarrow> py_error + string) \<Rightarrow> agent_state \<Rightarrow> py_error + agent_state" where
  "route_query_node llm st =
     (case invoke llm (Classify (st_query st)) st of
        Inl e \<Rightarrow> Inl e
      | Inr (reply, st1) \<Rightarrow>
          (let tool = lower (py_strip reply);
               tool1 = (if truthy (st_json_data st) \<and> \<not> contains ''reporting'' tool
                        then ''reporting_tool'' else tool)
           in Inr (st1\<lparr>st_tool := Some tool1\<rparr>)))"

definition route_condition :: "agent_state \<Rightarrow> string option" where
  "route_condition st = st_tool st"

datatype node = ProcessDataTool | ProcessReportingTool | ProcessMemoryTool
  | ProcessGreeting | ProcessFallback

text \<open>The mapping given to \<^verbatim>\<open>add_conditional_edges\<close>. LangGraph looks the value of
  \<^verbatim>\<open>route_condition\<close> up in it; a value that is not a key raises \<^verbatim>\<open>KeyError\<close>.\<close>

definition conditional_edges :: "(string \<times> node) list" where
  "conditional_edges =
     [(''data_tool'', ProcessDataTool), (''reporting_tool'', ProcessReportingTool),
      (''memory_tool'', ProcessMemoryTool), (''greeting'', ProcessGreeting),
      (''fallback'', ProcessFallback)]"

definition next_node :: "agent_state \<Rightarrow> py_error + node" where
  "next_node st =
     (case route_condition st of
        None \<Rightarrow> Inl KeyError
      | Some label \<Rightarrow> (case map_of conditional_edges label of None \<Rightarrow> Inl KeyError | Some n \<Rightarrow> Inr n))"

definition process_data_tool_node ::
  "pylib \<Rightarrow> (llm_request \<Rightarrow> py_error + string) \<Rightarrow> agent_state \<Rightarrow> py_error + agent_state" where
  "process_data_tool_node lib llm st =
     (case invoke llm (GenerateSql (st_query st)) st of
        Inl e \<Rightarrow> Inl e
      | Inr (sql_query, st1) \<Rightarrow>
          (case parse_sql_conditions sql_query of
             Inl e \<Rightarrow> Inl e
           | Inr conditions \<Rightarrow>
               (case apply_conditions lib campaign_sample_data conditions of
                  Inl e \<Rightarrow> Inl e
                | Inr filtered_data \<Rightarrow>
                    (case invoke llm (Summarize filtered_data (st_query st)) st1 of
                       Inl e \<Rightarrow> Inl e
                     | Inr (summary, st2) \<Rightarrow>
                         Inr (st2\<lparr>st_result := Some (DataResult sql_query filtered_data summary)\<rparr>)))))"

definition process_reporting_tool_node ::
  "(llm_request \<Rightarrow> py_error + string) \<Rightarrow> agent_state \<Rightarrow> py_error + agent_state" where
  "process_reporting_tool_node llm st =
     (let (json_data, data_source) =
            (if st_json_data st = JNull
             then (Records campaign_sample_data, ''sample data (no JSON provided in query)'')
             else (Payload (st_json_data st), ''JSON data from your query''))
      in case invoke llm (FormatReport (st_query st) json_data) st of
           Inl e \<Rightarrow> Inl e
         | Inr (formatted_output, st1) \<Rightarrow>
             Inr (st1\<lparr>st_result := Some (ReportingResult formatted_output (Some data_source) json_data)\<rparr>))"

definition process_memory_tool_node ::
  "(llm_request \<Rightarrow> py_error + string) \<Rightarrow> agent_state \<Rightarrow> py_error + agent_state" where
  "process_memory_tool_node llm st =
     (if st_memory st = [] then Inr (st\<lparr>st_result := Some no_memory_result\<rparr>)
      else (case invoke llm (Recall (st_query st) (st_memory st)) st of
              Inl e \<Rightarrow> Inl e
            | Inr (summary, st1) \<Rightarrow>
                Inr (st1\<lparr>st_result := Some (MemoryResult (st_memory st) summary)\<rparr>)))"

definition process_greeting_node :: "agent_state \<Rightarrow> agent_state" where
  "process_greeting_node st = st\<lparr>st_result := Some (handle_greeting (st_query st))\<rparr>"

definition process_fallback_node :: "agent_state \<Rightarrow> agent_state" where
  "process_fallback_node st = st\<lparr>st_result := Some (FallbackResult generic_response)\<rparr>"

text \<open>\<^verbatim>\<open>result["tool"]\<close> of a state without a result raises; the node is only reached after a
  handler has set one.\<close>

definition update_memory_node :: "agent_state \<Rightarrow> py_error + agent_state" where
  "update_memory_node st =
     (case st_result st of
        None \<Rightarrow> Inl TypeError
      | Some res \<Rightarrow>
          Inr (if tool_of res \<in> set [''data_tool'', ''reporting_tool'']
               then st\<lparr>st_memory := (if 2 \<le> length (st_memory st) then tl (st_memory st)
                                        else st_memory st) @ [(st_query st, res)]\<rparr>
               else st))"

definition and_then :: "py_error + 'a \<Rightarrow> ('a \<Rightarrow> py_error + 'b) \<Rightarrow> py_error + 'b" where
  "and_then m f = (case m of Inl e \<Rightarrow> Inl e | Inr x \<Rightarrow> f x)"

text \<open>The node reached over the conditional edge, followed by the fixed edges that leave it:
  the two tool nodes go on to \<^verbatim>\<open>update_memory\<close>, the other three to \<^verbatim>\<open>END\<close>.\<close>

definition run_node ::
  "pylib \<Rightarrow> (llm_request \<Rightarrow> py_error + string) \<Rightarrow> node \<Rightarrow> agent_state \<Rightarrow> py_error + agent_state" where
  "run_node lib llm n st =
     (case n of
        ProcessDataTool \<Rightarrow> and_then (process_data_tool_node lib llm st) update_memory_node
      | ProcessReportingTool \<Rightarrow> and_then (process_reporting_tool_node llm st) update_memory_node
      | ProcessMemoryTool \<Rightarrow> process_memory_tool_node llm st
      | ProcessGreeting \<Rightarrow> Inr (process_greeting_node st)
      | ProcessFallback \<Rightarrow> Inr (process_fallback_node st))"

text \<open>The compiled graph: entry \<^verbatim>\<open>extract_json\<close>, then \<^verbatim>\<open>route_query\<close>, then the conditional
  edge.\<close>

definition graph_invoke ::
  "pylib \<Rightarrow> (string \<Rightarrow> json option) \<Rightarrow> (llm_request \<Rightarrow> py_error + string) \<Rightarrow> agent_state
     \<Rightarrow> py_error + agent_state" where
  "graph_invoke lib loads llm st =
     and_then (route_query_node llm (extract_json_node loads st)) (\<lambda>st1.
     and_then (next_node st1) (\<lambda>n. run_node lib llm n st1))"

definition initial_state :: "string \<Rightarrow> agent_state" where
  "initial_state query =
     \<lparr>st_query = query, st_tool = None, st_result = None, st_json_data = JNull,
      st_memory = [], st_calls = []\<rparr>"

text \<open>\<^verbatim>\<open>process_query\<close> of \<^verbatim>\<open>src/campaign.py\<close>: the final state is returned too, to read the
  log of requests; the source returns its \<^verbatim>\<open>result\<close>.\<close>

definition campaign_process_query ::
  "pylib \<Rightarrow> (string \<Rightarrow> json option) \<Rightarrow> (llm_request \<Rightarrow> py_error + string) \<Rightarrow> string
     \<Rightarrow> py_error + agent_state" where
  "campaign_process_query lib loads llm query = graph_invoke lib loads llm (initial_state query)"

chapter \<open>Properties\<close>

section \<open>The record filter\<close>

text \<open>C4: for every list of records, filtering with an empty condition list returns the
  input list itself: the same records in the same order, and no error.\<close>

theorem apply_conditions_empty_identity:
  "apply_conditions lib data [] = Inr data"
  by (simp add: apply_conditions_def)

lemma check_condition_holds:
  assumes "c_operator c \<in> set [''='', ''>'', ''<'', ''LIKE'']"
  shows "(check_condition lib itm c = Inr True) = condition_holds lib itm c"
  using assms
  by (auto simp: check_condition_def condition_holds_def split: option.splits sum.splits)

text \<open>A condition on which the code raises is one no record satisfies: \<^verbatim>\<open>float\<close> and
  \<^verbatim>\<open>re.compile\<close> fail on the value of the condition, whatever the record.\<close>

lemma check_condition_error:
  assumes "check_condition lib itm c = Inl e"
  shows "\<not> condition_holds lib itm2 c"
  using assms
  by (auto simp: check_condition_def condition_holds_def split: option.splits sum.splits if_splits)

lemma matches_all_iff:
  assumes "\<forall>c \<in> set cs. c_operator c \<in> set [''='', ''>'', ''<'', ''LIKE'']"
  shows "(matches_all lib itm cs = Inr True) = satisfies_all lib cs itm"
  using assms
proof (induction cs)
  case Nil
  then show ?case by (simp add: satisfies_all_def)
next
  case (Cons c cs)
  have c: "(check_condition lib itm c = Inr True) = condition_holds lib itm c"
    using Cons.prems by (intro check_condition_holds) simp
  have ih: "(matches_all lib itm cs = Inr True) = satisfies_all lib cs itm"
    using Cons by simp
  show ?case
    using c ih by (cases "check_condition lib itm c") (auto simp: satisfies_all_def)
qed

lemma matches_all_error:
  assumes "matches_all lib itm cs = Inl e"
  shows "\<not> satisfies_all lib cs itm2"
  using assms
proof (induction cs)
  case Nil
  then show ?case by simp
next
  case (Cons c cs)
  show ?case
  proof (cases "check_condition lib itm c")
    case (Inl e')
    then show ?thesis
      using check_condition_error [of lib itm c e' itm2] by (simp add: satisfies_all_def)
  next
    case (Inr ok)
    then show ?thesis using Cons by (auto simp: satisfies_all_def split: if_splits)
  qed
qed

lemma filter_items_Inr:
  assumes "\<forall>c \<in> set cs. c_operator c \<in> set [''='', ''>'', ''<'', ''LIKE'']"
    and "filter_items lib data cs = Inr out"
  shows "out = filter (satisfies_all lib cs) data"
  using assms(2)
proof (induction data arbitrary: out)
  case Nil
  then show ?case by simp
next
  case (Cons itm data)
  from Cons.prems obtain keep rest where
    k: "matches_all lib itm cs = Inr keep" and r: "filter_items lib data cs = Inr rest"
    and o: "out = (if keep then itm # rest else rest)"
    by (auto split: sum.splits)
  have "keep = satisfies_all lib cs itm"
    using matches_all_iff [OF assms(1), of lib itm] k by auto
  then show ?case using Cons.IH [OF r] o by simp
qed

lemma filter_items_Inl:
  assumes "filter_items lib data cs = Inl e"
  shows "\<not> satisfies_all lib cs itm2"
  using assms
proof (induction data)
  case Nil
  then show ?case by simp
next
  case (Cons itm data)
  then show ?case using matches_all_error [of lib itm cs _ itm2]
    by (auto split: sum.splits)
qed

lemma example_filter:
  "apply_conditions example_lib sample_data
     [\<lparr>c_field = ''clicks'', c_operator = ''>'', c_value = ''3000''\<rparr>,
      \<lparr>c_field = ''channel'', c_operator = ''='', c_value = ''Email''\<rparr>] = Inr [sample_data ! 1]"
  by (simp add: apply_conditions_def sample_data_def check_condition_def example_lib_def
      numeric_def py_str_def digits_value_def is_digit_def digit_chars_def)

text \<open>The filter can raise: \<^verbatim>\<open>float\<close> of a value that is no number, on a numeric field.\<close>

lemma filter_can_raise:
  "apply_conditions example_lib sample_data
     [\<lparr>c_field = ''clicks'', c_operator = ''>'', c_value = ''many''\<rparr>] = Inl ValueError"
  by (simp add: apply_conditions_def sample_data_def check_condition_def example_lib_def
      numeric_def is_digit_def digit_chars_def)

text \<open>C2: for every record and every non-empty list of conditions with the four operators,
  the filter keeps the record iff the record is in the input and satisfies every condition,
  in the sense of \<open>condition_holds\<close>: a missing field fails, \<open>=\<close> compares \<^verbatim>\<open>str\<close> of the field
  with the value, \<open>>\<close> and \<open><\<close> need a numeric field that passes the comparison with
  \<^verbatim>\<open>float(value)\<close>, \<open>LIKE\<close> needs the value, compiled as a case-insensitive regular expression,
  to be found in \<^verbatim>\<open>str\<close> of the field. When the call returns, its result is the input
  filtered by that predicate, in the input's order. (The value of a \<open>LIKE\<close> condition is the
  one \<^verbatim>\<open>extract_conditions\<close> stored, in which \<open>%\<close> is already \<open>.*\<close>. A call that raises keeps
  nothing, and then no record satisfies every condition.)\<close>

theorem apply_conditions_keeps_iff:
  assumes "conds \<noteq> []"
    and "\<forall>c \<in> set conds. c_operator c \<in> set [''='', ''>'', ''<'', ''LIKE'']"
  shows "(itm \<in> set (kept (apply_conditions lib data conds))
            \<longleftrightarrow> itm \<in> set data \<and> satisfies_all lib conds itm) \<and>
         (\<forall>out. apply_conditions lib data conds = Inr out
            \<longrightarrow> out = filter (satisfies_all lib conds) data)"
proof (cases "filter_items lib data conds")
  case (Inl e)
  then show ?thesis
    using assms(1) filter_items_Inl [OF Inl]
    by (simp add: apply_conditions_def kept_def)
next
  case (Inr out)
  then show ?thesis
    using assms(1) filter_items_Inr [OF assms(2) Inr]
    by (simp add: apply_conditions_def kept_def)
qed

theorem apply_conditions_keeps_iff_witness:
  "[\<lparr>c_field = ''clicks'', c_operator = ''>'', c_value = ''3000''\<rparr>,
    \<lparr>c_field = ''channel'', c_operator = ''='', c_value = ''Email''\<rparr>] \<noteq> [] \<and>
   satisfies_all example_lib
     [\<lparr>c_field = ''clicks'', c_operator = ''>'', c_value = ''3000''\<rparr>,
      \<lparr>c_field = ''channel'', c_operator = ''='', c_value = ''Email''\<rparr>] (sample_data ! 1) \<and>
   filter (satisfies_all example_lib
     [\<lparr>c_field = ''clicks'', c_operator = ''>'', c_value = ''3000''\<rparr>,
      \<lparr>c_field = ''channel'', c_operator = ''='', c_value = ''Email''\<rparr>]) sample_data
     = [sample_data ! 1]"
proof -
  let ?conds = "[\<lparr>c_field = ''clicks'', c_operator = ''>'', c_value = ''3000''\<rparr>,
                 \<lparr>c_field = ''channel'', c_operator = ''='', c_value = ''Email''\<rparr>]"
  have ne: "?conds \<noteq> []" by simp
  have ops: "\<forall>c \<in> set ?conds. c_operator c \<in> set [''='', ''>'', ''<'', ''LIKE'']" by simp
  have k: "sample_data ! 1 \<in> set (kept (apply_conditions example_lib sample_data ?conds))"
    by (simp add: example_filter kept_def)
  note t = apply_conditions_keeps_iff [OF ne ops, of "sample_data ! 1" example_lib sample_data]
  have s: "satisfies_all example_lib ?conds (sample_data ! 1)"
    using t k by blast
  have f: "filter (satisfies_all example_lib ?conds) sample_data = [sample_data ! 1]"
    using t example_filter by simp
  show ?thesis using ne s f by blast
qed

section \<open>The bounded memory\<close>

lemma add_to_memory_length:
  "length (memory a) \<le> 2 \<Longrightarrow> length (memory (add_to_memory q r a)) \<le> 2"
  by (auto simp: add_to_memory_def)

lemma ask_memory [simp]: "memory (snd (ask llm req a)) = memory a"
  by (simp add: ask_def)

lemma route_query_memory [simp]: "memory (snd (route_query llm q a)) = memory a"
  by (simp add: route_query_def ask_def)

lemma data_tool_memory [simp]: "memory (snd (data_tool lib llm q a)) = memory a"
  by (simp add: data_tool_def ask_def split: sum.splits)

lemma reporting_tool_memory [simp]: "memory (snd (reporting_tool llm q a)) = memory a"
  by (simp add: reporting_tool_def ask_def)

lemma memory_tool_memory [simp]: "memory (snd (memory_tool llm q a)) = memory a"
  by (simp add: memory_tool_def ask_def)

lemma run_handler_memory [simp]: "memory (snd (run_handler lib llm h q a)) = memory a"
  by (cases h) (simp_all add: run_handler_def split: prod.splits,
      (metis reporting_tool_memory memory_tool_memory snd_conv)+)

text \<open>A query either leaves the memory as it is, or its result came from the data or the
  reporting tool and is appended, after the oldest entry is dropped from a full memory.\<close>

lemma process_query_memory_cases:
  "memory (snd (process_query lib llm q a)) = memory a \<or>
   (\<exists>res. fst (process_query lib llm q a) = Inr res \<and>
      tool_of res \<in> set [''data_tool'', ''reporting_tool''] \<and>
      memory (snd (process_query lib llm q a)) =
        (if 2 \<le> length (memory a) then tl (memory a) else memory a) @ [(q, res)])"
proof -
  obtain tool a1 where r: "route_query llm q a = (tool, a1)" by (cases "route_query llm q a")
  obtain res a2 where h: "run_handler lib llm (select_handler tool) q a1 = (res, a2)"
    by (cases "run_handler lib llm (select_handler tool) q a1")
  have m1: "memory a1 = memory a" using route_query_memory [of llm q a] r by simp
  have m2: "memory a2 = memory a1"
    using run_handler_memory [of lib llm "select_handler tool" q a1] h by simp
  show ?thesis
    using m1 m2 by (cases res) (simp_all add: process_query_def r h add_to_memory_def)
qed

lemma process_query_memory_bound:
  "length (memory a) \<le> 2 \<Longrightarrow> length (memory (snd (process_query lib llm q a))) \<le> 2"
  using process_query_memory_cases [of lib llm q a] by auto

lemma process_all_memory_bound:
  "length (memory a) \<le> 2 \<Longrightarrow> length (memory (process_all lib run a)) \<le> 2"
proof (induction run arbitrary: a)
  case Nil
  then show ?case by simp
next
  case (Cons step run)
  obtain llm q where s: "step = (llm, q)" by (cases step)
  show ?case using Cons.IH [OF process_query_memory_bound [OF Cons.prems]] by (simp add: s)
qed

lemma process_query_recorded_only:
  assumes "recorded_only (memory a)"
  shows "recorded_only (memory (snd (process_query lib llm q a)))"
proof -
  have t: "set (tl (memory a)) \<subseteq> set (memory a)" by (cases "memory a") auto
  show ?thesis
    using process_query_memory_cases [of lib llm q a] assms t
    unfolding recorded_only_def by (auto split: if_splits)
qed

lemma process_all_recorded_only:
  "recorded_only (memory a) \<Longrightarrow> recorded_only (memory (process_all lib run a))"
proof (induction run arbitrary: a)
  case Nil
  then show ?case by simp
next
  case (Cons step run)
  obtain llm q where s: "step = (llm, q)" by (cases step)
  show ?case using Cons.IH [OF process_query_recorded_only [OF Cons.prems]] by (simp add: s)
qed

lemma process_query_unrecorded:
  assumes "select_handler (fst (route_query llm q a)) \<in> {MemoryTool, Greeting, Fallback}"
  shows "memory (snd (process_query lib llm q a)) = memory a"
proof -
  obtain tool a1 where r: "route_query llm q a = (tool, a1)" by (cases "route_query llm q a")
  have m1: "memory a1 = memory a" using route_query_memory [of llm q a] r by simp
  from assms r have "select_handler tool = MemoryTool \<or> select_handler tool = Greeting
      \<or> select_handler tool = Fallback" by simp
  then show ?thesis
    using m1
    by (auto simp: process_query_def r run_handler_def memory_tool_def ask_def handle_greeting_def
        no_memory_result_def Let_def split: prod.splits if_splits)
qed

lemma add_three:
  "memory (add_to_memory q3 r3 (add_to_memory q2 r2 (add_to_memory q1 r1 init_agent)))
     = [(q2, r2), (q3, r3)]"
  by (simp add: add_to_memory_def init_agent_def)

lemma add_to_memory_full:
  "length (memory a) = 2 \<Longrightarrow> memory (add_to_memory q r a) = tl (memory a) @ [(q, r)]"
  by (simp add: add_to_memory_def)

lemma record_ops_bound:
  "length (memory a) \<le> 2 \<Longrightarrow>
   length (memory (foldl (\<lambda>a (q, r). add_to_memory q r a) a es)) \<le> 2"
  by (induction es arbitrary: a) (auto simp: add_to_memory_length split: prod.splits)

text \<open>The state machine of \<^verbatim>\<open>src/campaign.py\<close>: only \<^verbatim>\<open>update_memory\<close> touches the memory of
  the state, and it keeps the bound and the kind of the entries.\<close>

lemma invoke_memory:
  "invoke llm req st = Inr (reply, st1) \<Longrightarrow> st_memory st1 = st_memory st"
  by (auto simp: invoke_def split: sum.splits)

lemma route_query_node_memory:
  "route_query_node llm st = Inr st1 \<Longrightarrow> st_memory st1 = st_memory st"
  by (auto simp: route_query_node_def Let_def split: sum.splits prod.splits dest: invoke_memory)

lemma process_data_tool_node_memory:
  "process_data_tool_node lib llm st = Inr st1 \<Longrightarrow> st_memory st1 = st_memory st"
proof -
  assume a: "process_data_tool_node lib llm st = Inr st1"
  then obtain sql sta d summary stb where
    i1: "invoke llm (GenerateSql (st_query st)) st = Inr (sql, sta)"
    and i2: "invoke llm (Summarize d (st_query st)) sta = Inr (summary, stb)"
    and s: "st1 = stb\<lparr>st_result := Some (DataResult sql d summary)\<rparr>"
    by (auto simp: process_data_tool_node_def split: sum.splits prod.splits)
  show ?thesis using invoke_memory [OF i1] invoke_memory [OF i2] s by simp
qed

lemma process_reporting_tool_node_memory:
  "process_reporting_tool_node llm st = Inr st1 \<Longrightarrow> st_memory st1 = st_memory st"
  by (auto simp: process_reporting_tool_node_def split: sum.splits prod.splits if_splits dest: invoke_memory)

lemma process_memory_tool_node_memory:
  "process_memory_tool_node llm st = Inr st1 \<Longrightarrow> st_memory st1 = st_memory st"
  by (auto simp: process_memory_tool_node_def split: sum.splits prod.splits if_splits dest: invoke_memory)

lemma update_memory_node_bound:
  assumes "update_memory_node st = Inr st1" and "length (st_memory st) \<le> 2"
    and "recorded_only (st_memory st)"
  shows "length (st_memory st1) \<le> 2 \<and> recorded_only (st_memory st1)"
proof -
  have t: "set (tl (st_memory st)) \<subseteq> set (st_memory st)" by (cases "st_memory st") auto
  show ?thesis
    using assms t
    by (auto simp: update_memory_node_def recorded_only_def split: option.splits if_splits)
qed

lemma run_node_bound:
  assumes "run_node lib llm n st = Inr st1" and "length (st_memory st) \<le> 2"
    and "recorded_only (st_memory st)"
  shows "length (st_memory st1) \<le> 2 \<and> recorded_only (st_memory st1)"
proof (cases n)
  case ProcessDataTool
  with assms(1) obtain st0 where p: "process_data_tool_node lib llm st = Inr st0"
    and u: "update_memory_node st0 = Inr st1"
    by (auto simp: run_node_def and_then_def split: sum.splits)
  show ?thesis
    using update_memory_node_bound [OF u] process_data_tool_node_memory [OF p] assms(2,3) by simp
next
  case ProcessReportingTool
  with assms(1) obtain st0 where p: "process_reporting_tool_node llm st = Inr st0"
    and u: "update_memory_node st0 = Inr st1"
    by (auto simp: run_node_def and_then_def split: sum.splits)
  show ?thesis
    using update_memory_node_bound [OF u] process_reporting_tool_node_memory [OF p] assms(2,3) by simp
next
  case ProcessMemoryTool
  then show ?thesis
    using assms process_memory_tool_node_memory [of llm st st1] by (simp add: run_node_def)
next
  case ProcessGreeting
  then show ?thesis using assms by (auto simp: run_node_def process_greeting_node_def)
next
  case ProcessFallback
  then show ?thesis using assms by (auto simp: run_node_def process_fallback_node_def)
qed

lemma campaign_memory_bound:
  assumes "campaign_process_query lib loads llm q = Inr st"
  shows "length (st_memory st) \<le> 2 \<and> recorded_only (st_memory st)"
proof -
  from assms obtain st1 n where r: "route_query_node llm (extract_json_node loads (initial_state q)) = Inr st1"
    and "next_node st1 = Inr n" and run: "run_node lib llm n st1 = Inr st"
    by (auto simp: campaign_process_query_def graph_invoke_def and_then_def split: sum.splits)
  have "st_memory st1 = []"
    using route_query_node_memory [OF r] by (simp add: extract_json_node_def initial_state_def)
  then show ?thesis using run_node_bound [OF run] by (simp add: recorded_only_def)
qed

text \<open>What the nodes of \<^verbatim>\<open>src/campaign.py\<close> leave in place, and the result each handler sets.\<close>

lemma invoke_frame:
  "invoke llm req st = Inr (reply, st1) \<Longrightarrow>
     st_memory st1 = st_memory st \<and> st_query st1 = st_query st \<and> st_result st1 = st_result st"
  by (auto simp: invoke_def split: sum.splits)

lemma route_query_node_frame:
  "route_query_node llm st = Inr st1 \<Longrightarrow> st_memory st1 = st_memory st \<and> st_query st1 = st_query st"
  by (auto simp: route_query_node_def Let_def split: sum.splits prod.splits dest: invoke_frame)

lemma process_data_tool_node_result:
  assumes "process_data_tool_node lib llm st = Inr st1"
  shows "st_memory st1 = st_memory st \<and> st_query st1 = st_query st \<and>
         (\<exists>res. st_result st1 = Some res \<and> tool_of res = ''data_tool'')"
proof -
  from assms obtain sql sta d summary stb where
    i1: "invoke llm (GenerateSql (st_query st)) st = Inr (sql, sta)"
    and i2: "invoke llm (Summarize d (st_query st)) sta = Inr (summary, stb)"
    and s: "st1 = stb\<lparr>st_result := Some (DataResult sql d summary)\<rparr>"
    by (auto simp: process_data_tool_node_def split: sum.splits prod.splits)
  show ?thesis using invoke_frame [OF i1] invoke_frame [OF i2] s by simp
qed

lemma process_reporting_tool_node_result:
  assumes "process_reporting_tool_node llm st = Inr st1"
  shows "st_memory st1 = st_memory st \<and> st_query st1 = st_query st \<and>
         (\<exists>res. st_result st1 = Some res \<and> tool_of res = ''reporting_tool'')"
proof -
  from assms obtain req out sta src raw where
    i1: "invoke llm req st = Inr (out, sta)"
    and s: "st1 = sta\<lparr>st_result := Some (ReportingResult out src raw)\<rparr>"
    by (auto simp: process_reporting_tool_node_def split: sum.splits prod.splits if_splits)
  show ?thesis using invoke_frame [OF i1] s by simp
qed

lemma process_memory_tool_node_result:
  assumes "process_memory_tool_node llm st = Inr st1"
  shows "st_memory st1 = st_memory st \<and> st_query st1 = st_query st \<and>
         (\<exists>res. st_result st1 = Some res \<and> tool_of res = ''memory_tool'')"
proof (cases "st_memory st = []")
  case True
  then show ?thesis using assms by (auto simp: process_memory_tool_node_def no_memory_result_def)
next
  case False
  with assms obtain summary sta where
    i1: "invoke llm (Recall (st_query st) (st_memory st)) st = Inr (summary, sta)"
    and s: "st1 = sta\<lparr>st_result := Some (MemoryResult (st_memory st) summary)\<rparr>"
    by (auto simp: process_memory_tool_node_def split: sum.splits prod.splits)
  show ?thesis using invoke_frame [OF i1] s by simp
qed

text \<open>What \<^verbatim>\<open>update_memory\<close> does to the memory of the state.\<close>

lemma update_memory_node_records:
  assumes "st_result s = Some res" and "tool_of res \<in> set [''data_tool'', ''reporting_tool'']"
  shows "map_sum id st_memory (update_memory_node s)
           = Inr ((if 2 \<le> length (st_memory s) then tl (st_memory s) else st_memory s)
                  @ [(st_query s, res)])"
  using assms by (simp add: update_memory_node_def)

lemma update_memory_node_skips:
  assumes "st_result s = Some res" and "tool_of res \<notin> set [''data_tool'', ''reporting_tool'']"
  shows "update_memory_node s = Inr s"
  using assms by (simp add: update_memory_node_def)

lemma run_node_memory:
  assumes "run_node lib llm n st = Inr st1"
  shows "\<exists>res. st_result st1 = Some res \<and>
           st_memory st1 =
             (if tool_of res \<in> set [''data_tool'', ''reporting_tool'']
              then (if 2 \<le> length (st_memory st) then tl (st_memory st) else st_memory st)
                   @ [(st_query st, res)]
              else st_memory st)"
proof (cases n)
  case ProcessDataTool
  with assms obtain st0 where p: "process_data_tool_node lib llm st = Inr st0"
    and u: "update_memory_node st0 = Inr st1"
    by (auto simp: run_node_def and_then_def split: sum.splits)
  from process_data_tool_node_result [OF p] obtain res where
    f: "st_memory st0 = st_memory st" "st_query st0 = st_query st"
    and r: "st_result st0 = Some res" "tool_of res = ''data_tool''" by blast
  have "st_result st1 = Some res" using u r by (auto simp: update_memory_node_def)
  moreover have "st_memory st1 = (if 2 \<le> length (st_memory st) then tl (st_memory st) else st_memory st)
                   @ [(st_query st, res)]"
    using update_memory_node_records [of st0 res] r f u by simp
  ultimately show ?thesis using r by simp
next
  case ProcessReportingTool
  with assms obtain st0 where p: "process_reporting_tool_node llm st = Inr st0"
    and u: "update_memory_node st0 = Inr st1"
    by (auto simp: run_node_def and_then_def split: sum.splits)
  from process_reporting_tool_node_result [OF p] obtain res where
    f: "st_memory st0 = st_memory st" "st_query st0 = st_query st"
    and r: "st_result st0 = Some res" "tool_of res = ''reporting_tool''" by blast
  have "st_result st1 = Some res" using u r by (auto simp: update_memory_node_def)
  moreover have "st_memory st1 = (if 2 \<le> length (st_memory st) then tl (st_memory st) else st_memory st)
                   @ [(st_query st, res)]"
    using update_memory_node_records [of st0 res] r f u by simp
  ultimately show ?thesis using r by simp
next
  case ProcessMemoryTool
  with assms have "process_memory_tool_node llm st = Inr st1" by (simp add: run_node_def)
  from process_memory_tool_node_result [OF this] obtain res where
    f: "st_memory st1 = st_memory st" and r: "st_result st1 = Some res" "tool_of res = ''memory_tool''"
    by blast
  have "tool_of res \<notin> set [''data_tool'', ''reporting_tool'']" using r by simp
  then show ?thesis using f r(1) by (intro exI [of _ res]) simp
next
  case ProcessGreeting
  then show ?thesis using assms by (auto simp: run_node_def process_greeting_node_def handle_greeting_def)
next
  case ProcessFallback
  then show ?thesis using assms by (auto simp: run_node_def process_fallback_node_def)
qed

text \<open>The memory of the final state of a query in \<^verbatim>\<open>src/campaign.py\<close>: the result of this query
  alone, if it is one that is recorded.\<close>

lemma campaign_final_memory:
  assumes "campaign_process_query lib loads llm q = Inr st"
  shows "\<exists>res. st_result st = Some res \<and>
           st_memory st = (if tool_of res \<in> set [''data_tool'', ''reporting_tool'']
                           then [(q, res)] else [])"
proof -
  from assms obtain st1 n where r: "route_query_node llm (extract_json_node loads (initial_state q)) = Inr st1"
    and run: "run_node lib llm n st1 = Inr st"
    by (auto simp: campaign_process_query_def graph_invoke_def and_then_def split: sum.splits)
  have "st_memory st1 = []" "st_query st1 = q"
    using route_query_node_frame [OF r] by (simp_all add: extract_json_node_def initial_state_def)
  moreover from run_node_memory [OF run] obtain res where
    "st_result st = Some res"
    "st_memory st = (if tool_of res \<in> set [''data_tool'', ''reporting_tool'']
              then (if 2 \<le> length (st_memory st1) then tl (st_memory st1) else st_memory st1)
                   @ [(st_query st1, res)]
              else st_memory st1)" by blast
  ultimately show ?thesis by (intro exI [of _ res]) simp
qed

text \<open>The memory of the object of \<^verbatim>\<open>src/main.py\<close> after a query, from its result.\<close>

lemma process_query_memory:
  assumes "fst (process_query lib llm q a) = Inr res"
  shows "memory (snd (process_query lib llm q a)) =
           (if tool_of res \<in> set [''data_tool'', ''reporting_tool'']
            then (if 2 \<le> length (memory a) then tl (memory a) else memory a) @ [(q, res)]
            else memory a)"
proof -
  obtain tool a1 where r: "route_query llm q a = (tool, a1)" by (cases "route_query llm q a")
  obtain x a2 where h: "run_handler lib llm (select_handler tool) q a1 = (x, a2)"
    by (cases "run_handler lib llm (select_handler tool) q a1")
  have m1: "memory a1 = memory a" using route_query_memory [of llm q a] r by simp
  have m2: "memory a2 = memory a1"
    using run_handler_memory [of lib llm "select_handler tool" q a1] h by simp
  from assms have x: "x = Inr res" by (cases x) (simp_all add: process_query_def r h)
  show ?thesis using m1 m2 by (simp add: process_query_def r h x add_to_memory_def)
qed


text \<open>Any sequence of recordings through \<^verbatim>\<open>update_memory\<close> returns, with a memory within the
  bound that holds results of the two recorded tools only.\<close>

lemma update_memory_node_all:
  assumes "length (st_memory s) \<le> 2" and "recorded_only (st_memory s)"
  shows "\<exists>s1. foldl (\<lambda>m (q, r). and_then m
                    (\<lambda>s. update_memory_node (s\<lparr>st_query := q, st_result := Some r\<rparr>))) (Inr s) es
                = Inr s1 \<and>
              length (st_memory s1) \<le> 2 \<and> recorded_only (st_memory s1)"
  using assms
proof (induction es arbitrary: s)
  case Nil
  then show ?case by simp
next
  case (Cons e es)
  obtain q r where e: "e = (q, r)" by (cases e)
  obtain s0 where u: "update_memory_node (s\<lparr>st_query := q, st_result := Some r\<rparr>) = Inr s0"
    by (simp add: update_memory_node_def)
  have "length (st_memory s0) \<le> 2 \<and> recorded_only (st_memory s0)"
    using update_memory_node_bound [OF u] Cons.prems by simp
  then show ?case using Cons.IH [of s0] by (simp add: e and_then_def u)
qed

lemma update_memory_node_three:
  assumes "tool_of r1 \<in> set [''data_tool'', ''reporting_tool'']"
    and "tool_of r2 \<in> set [''data_tool'', ''reporting_tool'']"
    and "tool_of r3 \<in> set [''data_tool'', ''reporting_tool'']"
  shows "map_sum id st_memory
           (foldl (\<lambda>m (q, r). and_then m
                      (\<lambda>s. update_memory_node (s\<lparr>st_query := q, st_result := Some r\<rparr>)))
              (Inr (initial_state q0)) [(q1, r1), (q2, r2), (q3, r3)])
         = Inr [(q2, r2), (q3, r3)]"
  using assms by (simp add: and_then_def update_memory_node_def initial_state_def)

text \<open>C3: starting from the empty memory, after any sequence of record operations and after
  any sequence of processed queries the memory holds at most 2 entries; recording into a
  memory of 2 entries drops the entry at index 0 and appends the new one, so that recording
  E1, E2, E3 leaves [E2, E3]; every entry ever held is a result of the data tool or of the
  reporting tool, and a query handled by the memory tool, the greeting or the fallback leaves
  the memory as it was. A query that returns a result leaves exactly this memory: the old one
  if the result is of another tool, and otherwise the old one, without its entry at index 0
  if it held 2, followed by the query with its result. The same holds of \<^verbatim>\<open>update_memory\<close>
  in \<^verbatim>\<open>src/campaign.py\<close>: it returns the state unchanged for a result of another tool, and
  otherwise appends the query with its result after dropping the entry at index 0 of a
  memory of 2; any sequence of such recordings from the initial state stays within the
  bound and holds recorded results only, and E1, E2, E3 leave [E2, E3]. The final state of a
  query in \<^verbatim>\<open>src/campaign.py\<close> holds the result of this query alone if it is a recorded one,
  and nothing otherwise.\<close>

theorem bounded_memory:
  "length (memory (foldl (\<lambda>a (q, r). add_to_memory q r a) init_agent es)) \<le> 2 \<and>
   length (memory (process_all lib run init_agent)) \<le> 2 \<and>
   (length (memory a) = 2 \<longrightarrow> memory (add_to_memory q r a) = tl (memory a) @ [(q, r)]) \<and>
   memory (add_to_memory q3 r3 (add_to_memory q2 r2 (add_to_memory q1 r1 init_agent)))
     = [(q2, r2), (q3, r3)] \<and>
   recorded_only (memory (process_all lib run init_agent)) \<and>
   (select_handler (fst (route_query llm query a)) \<in> {MemoryTool, Greeting, Fallback}
      \<longrightarrow> memory (snd (process_query lib llm query a)) = memory a) \<and>
   (campaign_process_query lib loads llm_c query = Inr st
      \<longrightarrow> length (st_memory st) \<le> 2 \<and> recorded_only (st_memory st)) \<and>
   (fst (process_query lib llm query a) = Inr res
      \<longrightarrow> memory (snd (process_query lib llm query a)) =
            (if tool_of res \<in> set [''data_tool'', ''reporting_tool'']
             then (if 2 \<le> length (memory a) then tl (memory a) else memory a) @ [(query, res)]
             else memory a)) \<and>
   (st_result s = Some res \<and> tool_of res \<in> set [''data_tool'', ''reporting_tool'']
      \<longrightarrow> map_sum id st_memory (update_memory_node s)
            = Inr ((if 2 \<le> length (st_memory s) then tl (st_memory s) else st_memory s)
                   @ [(st_query s, res)])) \<and>
   (st_result s = Some res \<and> tool_of res \<notin> set [''data_tool'', ''reporting_tool'']
      \<longrightarrow> update_memory_node s = Inr s) \<and>
   (\<exists>s1. foldl (\<lambda>m (q, r). and_then m
                   (\<lambda>s. update_memory_node (s\<lparr>st_query := q, st_result := Some r\<rparr>)))
            (Inr (initial_state q0)) es = Inr s1 \<and>
         length (st_memory s1) \<le> 2 \<and> recorded_only (st_memory s1)) \<and>
   (tool_of r1 \<in> set [''data_tool'', ''reporting_tool''] \<and>
    tool_of r2 \<in> set [''data_tool'', ''reporting_tool''] \<and>
    tool_of r3 \<in> set [''data_tool'', ''reporting_tool'']
      \<longrightarrow> map_sum id st_memory
            (foldl (\<lambda>m (q, r). and_then m
                       (\<lambda>s. update_memory_node (s\<lparr>st_query := q, st_result := Some r\<rparr>)))
               (Inr (initial_state q0)) [(q1, r1), (q2, r2), (q3, r3)])
          = Inr [(q2, r2), (q3, r3)]) \<and>
   (campaign_process_query lib loads llm_c query = Inr st
      \<longrightarrow> (\<exists>res. st_result st = Some res \<and>
             st_memory st = (if tool_of res \<in> set [''data_tool'', ''reporting_tool'']
                             then [(query, res)] else [])))"
proof -
  have c1: "length (memory (foldl (\<lambda>a (q, r). add_to_memory q r a) init_agent es)) \<le> 2"
    by (rule record_ops_bound) (simp add: init_agent_def)
  have c2: "length (memory (process_all lib run init_agent)) \<le> 2"
    by (rule process_all_memory_bound) (simp add: init_agent_def)
  have c3: "length (memory a) = 2 \<longrightarrow> memory (add_to_memory q r a) = tl (memory a) @ [(q, r)]"
    by (simp add: add_to_memory_full)
  have c4: "memory (add_to_memory q3 r3 (add_to_memory q2 r2 (add_to_memory q1 r1 init_agent)))
     = [(q2, r2), (q3, r3)]"
    by (rule add_three)
  have c5: "recorded_only (memory (process_all lib run init_agent))"
    by (rule process_all_recorded_only) (simp add: init_agent_def recorded_only_def)
  have c6: "select_handler (fst (route_query llm query a)) \<in> {MemoryTool, Greeting, Fallback}
      \<longrightarrow> memory (snd (process_query lib llm query a)) = memory a"
    using process_query_unrecorded [of llm query a lib] by blast
  have c7: "campaign_process_query lib loads llm_c query = Inr st
      \<longrightarrow> length (st_memory st) \<le> 2 \<and> recorded_only (st_memory st)"
    using campaign_memory_bound [of lib loads llm_c query st] by blast
  have c8: "fst (process_query lib llm query a) = Inr res
      \<longrightarrow> memory (snd (process_query lib llm query a)) =
            (if tool_of res \<in> set [''data_tool'', ''reporting_tool'']
             then (if 2 \<le> length (memory a) then tl (memory a) else memory a) @ [(query, res)]
             else memory a)"
    using process_query_memory [of lib llm query a res] by blast
  have c9: "st_result s = Some res \<and> tool_of res \<in> set [''data_tool'', ''reporting_tool'']
      \<longrightarrow> map_sum id st_memory (update_memory_node s)
            = Inr ((if 2 \<le> length (st_memory s) then tl (st_memory s) else st_memory s)
                   @ [(st_query s, res)])"
    using update_memory_node_records [of s res] by blast
  have c10: "st_result s = Some res \<and> tool_of res \<notin> set [''data_tool'', ''reporting_tool'']
      \<longrightarrow> update_memory_node s = Inr s"
    using update_memory_node_skips [of s res] by blast
  have c11: "\<exists>s1. foldl (\<lambda>m (q, r). and_then m
                   (\<lambda>s. update_memory_node (s\<lparr>st_query := q, st_result := Some r\<rparr>)))
            (Inr (initial_state q0)) es = Inr s1 \<and>
         length (st_memory s1) \<le> 2 \<and> recorded_only (st_memory s1)"
    by (rule update_memory_node_all) (simp_all add: initial_state_def recorded_only_def)
  have c12: "tool_of r1 \<in> set [''data_tool'', ''reporting_tool''] \<and>
    tool_of r2 \<in> set [''data_tool'', ''reporting_tool''] \<and>
    tool_of r3 \<in> set [''data_tool'', ''reporting_tool'']
      \<longrightarrow> map_sum id st_memory
            (foldl (\<lambda>m (q, r). and_then m
                       (\<lambda>s. update_memory_node (s\<lparr>st_query := q, st_result := Some r\<rparr>)))
               (Inr (initial_state q0)) [(q1, r1), (q2, r2), (q3, r3)])
          = Inr [(q2, r2), (q3, r3)]"
    using update_memory_node_three [of r1 r2 r3 q0 q1 q2 q3] by blast
  have c13: "campaign_process_query lib loads llm_c query = Inr st
      \<longrightarrow> (\<exists>res. st_result st = Some res \<and>
             st_memory st = (if tool_of res \<in> set [''data_tool'', ''reporting_tool'']
                             then [(query, res)] else []))"
    using campaign_final_memory [of lib loads llm_c query st] by blast
  show ?thesis
    by (intro conjI) (rule c1, rule c2, rule c3, rule c4, rule c5, rule c6, rule c7, rule c8,
        rule c9, rule c10, rule c11, rule c12, rule c13)
qed

theorem bounded_memory_witness:
  "length (memory \<lparr>memory = [(''q1'', FallbackResult ''r1''), (''q2'', FallbackResult ''r2'')],
                   llm_calls = []\<rparr>) = 2 \<and>
   memory (add_to_memory ''q3'' (GreetingResult ''r3'')
            \<lparr>memory = [(''q1'', FallbackResult ''r1''), (''q2'', FallbackResult ''r2'')],
             llm_calls = []\<rparr>)
     = [(''q2'', FallbackResult ''r2''), (''q3'', GreetingResult ''r3'')] \<and>
   select_handler (fst (route_query (\<lambda>req. '' Memory_Tool '') ''Summarize the previous results''
       \<lparr>memory = [(''q1'', FallbackResult ''r1''), (''q2'', FallbackResult ''r2'')],
        llm_calls = []\<rparr>)) \<in> {MemoryTool, Greeting, Fallback} \<and>
   memory (snd (process_query example_lib (\<lambda>req. '' Memory_Tool '')
       ''Summarize the previous results''
       \<lparr>memory = [(''q1'', FallbackResult ''r1''), (''q2'', FallbackResult ''r2'')],
        llm_calls = []\<rparr>))
     = [(''q1'', FallbackResult ''r1''), (''q2'', FallbackResult ''r2'')] \<and>
   fst (process_query example_lib
         (\<lambda>req. case req of Classify q \<Rightarrow> ''data_tool''
                 | GenerateSql q \<Rightarrow> ''SELECT * FROM campaigns'' | _ \<Rightarrow> ''summary'')
         ''Show me all campaigns''
         \<lparr>memory = [(''q1'', FallbackResult ''r1''), (''q2'', FallbackResult ''r2'')],
          llm_calls = []\<rparr>)
     = Inr (DataResult ''SELECT * FROM campaigns'' sample_data ''summary'') \<and>
   memory (snd (process_query example_lib
         (\<lambda>req. case req of Classify q \<Rightarrow> ''data_tool''
                 | GenerateSql q \<Rightarrow> ''SELECT * FROM campaigns'' | _ \<Rightarrow> ''summary'')
         ''Show me all campaigns''
         \<lparr>memory = [(''q1'', FallbackResult ''r1''), (''q2'', FallbackResult ''r2'')],
          llm_calls = []\<rparr>))
     = [(''q2'', FallbackResult ''r2''),
        (''Show me all campaigns'', DataResult ''SELECT * FROM campaigns'' sample_data ''summary'')] \<and>
   map_sum id st_memory
     (update_memory_node
        \<lparr>st_query = ''q3'', st_tool = Some ''data_tool'',
         st_result = Some (DataResult ''sql'' [] ''r3''), st_json_data = JNull,
         st_memory = [(''q1'', DataResult ''sql'' [] ''r1''), (''q2'', DataResult ''sql'' [] ''r2'')],
         st_calls = []\<rparr>)
     = Inr [(''q2'', DataResult ''sql'' [] ''r2''), (''q3'', DataResult ''sql'' [] ''r3'')] \<and>
   update_memory_node
        \<lparr>st_query = ''q3'', st_tool = Some ''greeting'',
         st_result = Some (GreetingResult ''r3''), st_json_data = JNull,
         st_memory = [(''q1'', DataResult ''sql'' [] ''r1''), (''q2'', DataResult ''sql'' [] ''r2'')],
         st_calls = []\<rparr>
     = Inr \<lparr>st_query = ''q3'', st_tool = Some ''greeting'',
         st_result = Some (GreetingResult ''r3''), st_json_data = JNull,
         st_memory = [(''q1'', DataResult ''sql'' [] ''r1''), (''q2'', DataResult ''sql'' [] ''r2'')],
         st_calls = []\<rparr> \<and>
   map_sum id st_memory
     (foldl (\<lambda>m (q, r). and_then m
                (\<lambda>s. update_memory_node (s\<lparr>st_query := q, st_result := Some r\<rparr>)))
        (Inr (initial_state ''q0''))
        [(''q1'', DataResult ''sql'' [] ''r1''), (''q2'', ReportingResult ''r2'' None (Records [])),
         (''q3'', DataResult ''sql'' [] ''r3'')])
     = Inr [(''q2'', ReportingResult ''r2'' None (Records [])), (''q3'', DataResult ''sql'' [] ''r3'')] \<and>
   map_sum id st_result
     (campaign_process_query example_lib (\<lambda>s. None)
        (\<lambda>req. case req of Classify q \<Rightarrow> Inr ''data_tool''
                | GenerateSql q \<Rightarrow> Inr ''SELECT * FROM campaigns'' | _ \<Rightarrow> Inr ''summary'')
        ''Show me all campaigns'')
     = Inr (Some (DataResult ''SELECT * FROM campaigns'' campaign_sample_data ''summary'')) \<and>
   map_sum id st_memory
     (campaign_process_query example_lib (\<lambda>s. None)
        (\<lambda>req. case req of Classify q \<Rightarrow> Inr ''data_tool''
                | GenerateSql q \<Rightarrow> Inr ''SELECT * FROM campaigns'' | _ \<Rightarrow> Inr ''summary'')
        ''Show me all campaigns'')
     = Inr [(''Show me all campaigns'',
             DataResult ''SELECT * FROM campaigns'' campaign_sample_data ''summary'')]"
proof -
  let ?a = "\<lparr>memory = [(''q1'', FallbackResult ''r1''), (''q2'', FallbackResult ''r2'')],
             llm_calls = []\<rparr>"
  let ?m = "\<lambda>req :: llm_request. '' Memory_Tool ''"
  let ?d = "\<lambda>req. case req of Classify q \<Rightarrow> ''data_tool''
                 | GenerateSql q \<Rightarrow> ''SELECT * FROM campaigns'' | _ \<Rightarrow> ''summary''"
  let ?c = "\<lambda>req. case req of Classify q \<Rightarrow> Inr ''data_tool''
                | GenerateSql q \<Rightarrow> Inr ''SELECT * FROM campaigns''
                | _ \<Rightarrow> (Inr ''summary'' :: py_error + string)"
  let ?e1 = "(''q1'', DataResult ''sql'' [] ''r1'')"
  let ?e2 = "(''q2'', DataResult ''sql'' [] ''r2'')"
  let ?s = "\<lparr>st_query = ''q3'', st_tool = Some ''data_tool'',
         st_result = Some (DataResult ''sql'' [] ''r3''), st_json_data = JNull,
         st_memory = [?e1, ?e2], st_calls = []\<rparr>"
  let ?g = "\<lparr>st_query = ''q3'', st_tool = Some ''greeting'',
         st_result = Some (GreetingResult ''r3''), st_json_data = JNull,
         st_memory = [?e1, ?e2], st_calls = []\<rparr>"
  let ?res = "DataResult ''SELECT * FROM campaigns'' campaign_sample_data ''summary''"
  let ?st = "\<lparr>st_query = ''Show me all campaigns'', st_tool = Some ''data_tool'',
         st_result = Some ?res, st_json_data = JNull,
         st_memory = [(''Show me all campaigns'', ?res)],
         st_calls = [Classify ''Show me all campaigns'', GenerateSql ''Show me all campaigns'',
                     Summarize campaign_sample_data ''Show me all campaigns'']\<rparr>"
  have l: "length (memory ?a) = 2" by simp
  have h: "select_handler (fst (route_query ?m ''Summarize the previous results'' ?a)) = MemoryTool"
    by code_simp
  have f: "fst (process_query example_lib ?d ''Show me all campaigns'' ?a)
             = Inr (DataResult ''SELECT * FROM campaigns'' sample_data ''summary'')"
    by code_simp
  have run: "campaign_process_query example_lib (\<lambda>s. None) ?c ''Show me all campaigns'' = Inr ?st"
    by code_simp
  note t = bounded_memory [where a = ?a and q = "''q3''" and r = "GreetingResult ''r3''"
      and llm = ?m and query = "''Summarize the previous results''" and lib = example_lib]
  note d = bounded_memory [where a = ?a and llm = ?d and query = "''Show me all campaigns''"
      and lib = example_lib
      and res = "DataResult ''SELECT * FROM campaigns'' sample_data ''summary''"]
  note u = bounded_memory [where s = ?s and res = "DataResult ''sql'' [] ''r3''"]
  note g = bounded_memory [where s = ?g and res = "GreetingResult ''r3''"]
  note e = bounded_memory [where ?q0.0 = "''q0''" and ?q1.0 = "''q1''" and ?q2.0 = "''q2''"
      and ?q3.0 = "''q3''" and ?r1.0 = "DataResult ''sql'' [] ''r1''"
      and ?r2.0 = "ReportingResult ''r2'' None (Records [])" and ?r3.0 = "DataResult ''sql'' [] ''r3''"]
  note c = bounded_memory [where lib = example_lib and loads = "\<lambda>s. None" and llm_c = ?c
      and query = "''Show me all campaigns''" and st = ?st]
  have m: "memory (add_to_memory ''q3'' (GreetingResult ''r3'') ?a)
             = [(''q2'', FallbackResult ''r2''), (''q3'', GreetingResult ''r3'')]"
    using t l by simp
  have k: "memory (snd (process_query example_lib ?m ''Summarize the previous results'' ?a)) = memory ?a"
    using t h by simp
  have p: "memory (snd (process_query example_lib ?d ''Show me all campaigns'' ?a))
             = [(''q2'', FallbackResult ''r2''),
                (''Show me all campaigns'', DataResult ''SELECT * FROM campaigns'' sample_data ''summary'')]"
    using d f by simp
  have us: "map_sum id st_memory (update_memory_node ?s)
             = Inr [?e2, (''q3'', DataResult ''sql'' [] ''r3'')]"
    using u by simp
  have gs: "update_memory_node ?g = Inr ?g"
    using g by simp
  have es: "map_sum id st_memory
     (foldl (\<lambda>m (q, r). and_then m
                (\<lambda>s. update_memory_node (s\<lparr>st_query := q, st_result := Some r\<rparr>)))
        (Inr (initial_state ''q0''))
        [(''q1'', DataResult ''sql'' [] ''r1''), (''q2'', ReportingResult ''r2'' None (Records [])),
         (''q3'', DataResult ''sql'' [] ''r3'')])
     = Inr [(''q2'', ReportingResult ''r2'' None (Records [])), (''q3'', DataResult ''sql'' [] ''r3'')]"
    using e by simp
  have cs: "st_memory ?st = [(''Show me all campaigns'', ?res)]"
    using c run by simp
  show ?thesis using l m k h f p us gs es cs run by simp
qed

section \<open>The guarded provider call\<close>




section \<open>What the extractor can capture\<close>

lemma upper_char_not_lower: "\<not> is_lower (upper_char c)"
  by (simp add: upper_char_def is_lower_def lower_letters_def upper_letters_def)

lemma upper_no_lower: "x \<in> set (upper s) \<Longrightarrow> \<not> is_lower x"
  by (auto simp: upper_def upper_char_not_lower)

lemma rmatch_sound:
  "(caps, rest) \<in> set (rmatch r s) \<Longrightarrow>
     (\<exists>pre. s = pre @ rest) \<and> (\<forall>cap \<in> set caps. set cap \<subseteq> set s)"
proof (induction r arbitrary: s caps rest)
  case Eps
  then show ?case by simp
next
  case (Atom c)
  then show ?case by (cases s) (auto split: if_splits)
next
  case (Star c)
  then obtain n where "rest = drop n s" "caps = []" by auto
  then show ?case using append_take_drop_id [of n s] by (metis empty_iff list.set(1))
next
  case (Plus c)
  then obtain n where "rest = drop n s" "caps = []" by auto
  then show ?case using append_take_drop_id [of n s] by (metis empty_iff list.set(1))
next
  case (Group r)
  from Group.prems obtain caps0 where
    m: "(caps0, rest) \<in> set (rmatch r s)" and c: "caps = take (length s - length rest) s # caps0"
    by auto
  from Group.IH [OF m] show ?case using c by (auto dest: in_set_takeD)
next
  case (Seq r1 r2)
  from Seq.prems obtain c1 mid c2 where
    m1: "(c1, mid) \<in> set (rmatch r1 s)" and m2: "(c2, rest) \<in> set (rmatch r2 mid)"
    and c: "caps = c1 @ c2"
    by auto
  from Seq.IH(1) [OF m1] obtain p1 where p1: "s = p1 @ mid" and s1: "\<forall>cap \<in> set c1. set cap \<subseteq> set s"
    by blast
  from Seq.IH(2) [OF m2] obtain p2 where p2: "mid = p2 @ rest" and s2: "\<forall>cap \<in> set c2. set cap \<subseteq> set mid"
    by blast
  have "s = (p1 @ p2) @ rest" using p1 p2 by simp
  moreover have "\<forall>cap \<in> set caps. set cap \<subseteq> set s" using s1 s2 p1 c by auto
  ultimately show ?case by blast
next
  case (Alt r1 r2)
  from Alt.prems have "(caps, rest) \<in> set (rmatch r1 s) \<or> (caps, rest) \<in> set (rmatch r2 s)"
    by simp
  then show ?case using Alt.IH by blast
qed

lemma match_at_sound:
  assumes "match_at r s = Some (caps, rest)"
  shows "(\<exists>pre. s = pre @ rest) \<and> (\<forall>cap \<in> set caps. set cap \<subseteq> set s)"
proof -
  from assms have "(caps, rest) \<in> set (rmatch r s)"
    by (auto simp: match_at_def split: list.splits)
  then show ?thesis by (rule rmatch_sound)
qed

lemma re_search_sound:
  "re_search r s = Some caps \<Longrightarrow> \<forall>cap \<in> set caps. set cap \<subseteq> set s"
proof (induction s)
  case Nil
  then show ?case using match_at_sound [of r "[]"] by (cases "match_at r []") auto
next
  case (Cons x xs)
  show ?case
  proof (cases "match_at r (x # xs)")
    case None
    then show ?thesis using Cons by auto
  next
    case (Some m)
    obtain c0 r0 where m: "m = (c0, r0)" by (cases m)
    from Some m Cons.prems have "caps = c0" by simp
    then show ?thesis using match_at_sound [of r "x # xs" c0 r0] Some m by simp
  qed
qed

lemma first_match_sound:
  "first_match ps part = Some caps \<Longrightarrow> \<forall>cap \<in> set caps. set cap \<subseteq> set part"
  by (induction ps) (auto split: option.splits dest: re_search_sound)

lemma set_py_strip: "set (py_strip s) \<subseteq> set s"
proof -
  have "set (py_strip s) \<subseteq> set (dropWhile is_space s)"
    using set_dropWhileD [of _ is_space "rev (dropWhile is_space s)"] by (auto simp: py_strip_def)
  then show ?thesis using set_dropWhileD [of _ is_space s] by auto
qed

lemma clause_condition_field:
  assumes "clause_condition p = Some c"
  shows "set (c_field c) \<subseteq> set p"
proof -
  define part where "part = (if endswith (py_strip p) '';'' then butlast (py_strip p) else py_strip p)"
  have sub: "set part \<subseteq> set p"
    using set_py_strip [of p] by (auto simp: part_def dest: in_set_butlastD)
  from assms obtain fld val where fm: "first_match patterns part = Some [fld, val]"
    and f: "c_field c = fld"
    by (auto simp: clause_condition_def part_def Let_def split: option.splits list.splits if_splits)
  from first_match_sound [OF fm] have "set fld \<subseteq> set part" by simp
  then show ?thesis using sub f by auto
qed

lemma re_split_from_chars:
  "p \<in> set (re_split_from r acc s) \<Longrightarrow> set p \<subseteq> set acc \<union> set s"
proof (induction r acc s rule: re_split_from.induct)
  case (1 r acc s)
  show ?case
  proof (cases "s = []")
    case True
    then show ?thesis using "1.prems" by (simp add: re_split_from.simps)
  next
    case False
    then obtain x xs where s: "s = x # xs" by (cases s) auto
    show ?thesis
    proof (cases "match_at r s")
      case None
      with "1.prems" False have "p \<in> set (re_split_from r (acc @ [hd s]) (tl s))"
        by (simp add: re_split_from.simps [of r acc s])
      from "1.IH"(1) [OF False None this] show ?thesis using s by auto
    next
      case (Some m)
      obtain caps rest where m: "m = (caps, rest)" by (cases m)
      from match_at_sound [of r s caps rest] Some m obtain pre where pre: "s = pre @ rest" by auto
      show ?thesis
      proof (cases "length rest < length s")
        case True
        with "1.prems" False Some m have "p = acc \<or> p \<in> set (re_split_from r [] rest)"
          by (simp add: re_split_from.simps [of r acc s])
        then show ?thesis
        proof
          assume "p = acc" then show ?thesis by auto
        next
          assume "p \<in> set (re_split_from r [] rest)"
          from "1.IH"(2) [OF False Some m [symmetric] True this] have "set p \<subseteq> set rest" by simp
          then show ?thesis using pre by auto
        qed
      next
        case nl: False
        with "1.prems" False Some m have "p \<in> set (re_split_from r (acc @ [hd s]) (tl s))"
          by (simp add: re_split_from.simps [of r acc s])
        from "1.IH"(3) [OF False Some m [symmetric] nl this] show ?thesis using s by auto
      qed
    qed
  qed
qed

lemma extract_conditions_field:
  assumes "c \<in> set (extract_conditions s)"
  shows "set (c_field c) \<subseteq> set s"
proof -
  from assms obtain p where p: "p \<in> set (re_split split_pattern s)" and c: "clause_condition p = Some c"
    by (auto simp: extract_conditions_def List.map_filter_def)
  from re_split_from_chars [of p split_pattern "[]" s] p have "set p \<subseteq> set s" by (simp add: re_split_def)
  then show ?thesis using clause_condition_field [OF c] by auto
qed

lemma split_from_chars:
  "p \<in> set (split_from sep acc s) \<Longrightarrow> set p \<subseteq> set acc \<union> set s"
proof (induction sep acc s rule: split_from.induct)
  case (1 sep acc s)
  show ?case
  proof (cases "s = []")
    case True
    then show ?thesis using "1.prems" by (simp add: split_from.simps)
  next
    case False
    then obtain x xs where s: "s = x # xs" by (cases s) auto
    show ?thesis
    proof (cases "sep \<noteq> [] \<and> startswith s sep")
      case True
      with "1.prems" False have "p = acc \<or> p \<in> set (split_from sep [] (drop (length sep) s))"
        by (simp add: split_from.simps [of sep acc s])
      then show ?thesis
      proof
        assume "p = acc" then show ?thesis by auto
      next
        assume "p \<in> set (split_from sep [] (drop (length sep) s))"
        from "1.IH"(1) [OF False True this] show ?thesis by (auto dest: in_set_dropD)
      qed
    next
      case nt: False
      with "1.prems" False have "p \<in> set (split_from sep (acc @ [hd s]) (tl s))"
        by (simp add: split_from.simps [of sep acc s])
      from "1.IH"(2) [OF False nt this] show ?thesis using s by auto
    qed
  qed
qed

lemma py_split_chars: "py_index (py_split s sep) i = Inr p \<Longrightarrow> set p \<subseteq> set s"
  using split_from_chars [of p sep "[]" s]
  by (auto simp: py_index_def py_split_def split: if_splits)

lemma parse_sql_conditions_field:
  assumes "parse_sql_conditions sql = Inr cs" and "c \<in> set cs"
  shows "set (c_field c) \<subseteq> set (upper sql)"
proof (cases "contains ''WHERE'' (upper sql)")
  case False
  then show ?thesis using assms by (simp add: parse_sql_conditions_def)
next
  case True
  from assms(1) True obtain w1 w2 w3 where
    w1: "py_index (py_split (upper sql) ''WHERE'') 1 = Inr w1"
    and w2: "(if contains ''GROUP BY'' w1 then py_index (py_split w1 ''GROUP BY'') 0 else Inr w1) = Inr w2"
    and w3: "(if contains ''ORDER BY'' w2 then py_index (py_split w2 ''ORDER BY'') 0 else Inr w2) = Inr w3"
    and cs: "cs = extract_conditions (py_strip w3)"
    by (auto simp: parse_sql_conditions_def split: sum.splits)
  have s1: "set w1 \<subseteq> set (upper sql)" using py_split_chars [OF w1] .
  have s2: "set w2 \<subseteq> set w1" using w2 py_split_chars [of w1 "''GROUP BY''" 0 w2] by (auto split: if_splits)
  have s3: "set w3 \<subseteq> set w2" using w3 py_split_chars [of w2 "''ORDER BY''" 0 w3] by (auto split: if_splits)
  have "set (c_field c) \<subseteq> set (py_strip w3)" using extract_conditions_field assms(2) cs by blast
  then show ?thesis using s1 s2 s3 set_py_strip [of w3] by blast
qed

lemma sample_keys_lower:
  "list_all (\<lambda>itm. list_all (\<lambda>kv. list_ex is_lower (fst kv)) itm) sample_data"
  by code_simp

lemma sample_field_missing:
  assumes "\<forall>x \<in> set f. \<not> is_lower x" and "itm \<in> set sample_data"
  shows "map_of itm f = None"
proof (rule ccontr)
  assume "map_of itm f \<noteq> None"
  then obtain v where "(f, v) \<in> set itm" by (auto dest: map_of_SomeD)
  with assms(2) sample_keys_lower have "list_ex is_lower f"
    by (fastforce simp: list_all_iff)
  with assms(1) show False by (auto simp: list_ex_iff)
qed

lemma split_from_nonempty: "split_from sep acc s \<noteq> []"
proof (induction sep acc s rule: split_from.induct)
  case (1 sep acc s)
  show ?case
  proof (cases "s = []")
    case True
    then show ?thesis by (simp add: split_from.simps)
  next
    case False
    show ?thesis
    proof (cases "sep \<noteq> [] \<and> startswith s sep")
      case True
      with False show ?thesis by (simp add: split_from.simps [of sep acc s])
    next
      case nt: False
      from "1.IH"(2) [OF False nt] False nt show ?thesis
        by (simp add: split_from.simps [of sep acc s])
    qed
  qed
qed

lemma split_from_contains:
  "sep \<noteq> [] \<Longrightarrow> contains sep s \<Longrightarrow> 2 \<le> length (split_from sep acc s)"
proof (induction sep acc s rule: split_from.induct)
  case (1 sep acc s)
  show ?case
  proof (cases "s = []")
    case True
    then show ?thesis using "1.prems" by simp
  next
    case False
    then obtain x xs where s: "s = x # xs" by (cases s) auto
    show ?thesis
    proof (cases "sep \<noteq> [] \<and> startswith s sep")
      case True
      have "split_from sep [] (drop (length sep) s) \<noteq> []" by (rule split_from_nonempty)
      then have "1 \<le> length (split_from sep [] (drop (length sep) s))"
        by (cases "split_from sep [] (drop (length sep) s)") auto
      with False True show ?thesis by (simp add: split_from.simps [of sep acc s])
    next
      case nt: False
      with "1.prems" s have "contains sep (tl s)" by auto
      from "1.IH"(2) [OF False nt "1.prems"(1) this] False nt show ?thesis
        by (auto simp: split_from.simps [of sep acc s])
    qed
  qed
qed

lemma parse_sql_conditions_returns: "\<exists>cs. parse_sql_conditions sql = Inr cs"
proof (cases "contains ''WHERE'' (upper sql)")
  case False
  then show ?thesis by (simp add: parse_sql_conditions_def)
next
  case True
  have "2 \<le> length (py_split (upper sql) ''WHERE'')"
    unfolding py_split_def using True by (intro split_from_contains) simp_all
  then obtain w1 where w1: "py_index (py_split (upper sql) ''WHERE'') 1 = Inr w1"
    by (auto simp: py_index_def)
  have g: "\<exists>w2. (if contains ''GROUP BY'' w1 then py_index (py_split w1 ''GROUP BY'') 0 else Inr w1) = Inr w2"
    using split_from_nonempty [of "''GROUP BY''" "[]" w1] by (auto simp: py_index_def py_split_def)
  then obtain w2 where w2: "(if contains ''GROUP BY'' w1 then py_index (py_split w1 ''GROUP BY'') 0 else Inr w1) = Inr w2" ..
  have "\<exists>w3. (if contains ''ORDER BY'' w2 then py_index (py_split w2 ''ORDER BY'') 0 else Inr w2) = Inr w3"
    using split_from_nonempty [of "''ORDER BY''" "[]" w2] by (auto simp: py_index_def py_split_def)
  then obtain w3 where w3: "(if contains ''ORDER BY'' w2 then py_index (py_split w2 ''ORDER BY'') 0 else Inr w2) = Inr w3" ..
  show ?thesis using True w1 w2 w3 by (simp add: parse_sql_conditions_def)
qed

lemma parse_sql_conditions_upper:
  assumes "parse_sql_conditions sql = Inr cs" and "c \<in> set cs" and "x \<in> set (c_field c)"
  shows "\<not> is_lower x"
  using parse_sql_conditions_field [OF assms(1,2)] assms(3) upper_no_lower by blast

lemma matches_all_missing:
  "map_of itm (c_field c) = None \<Longrightarrow> matches_all lib itm (c # cs) = Inr False"
  by (simp add: check_condition_def)

lemma filter_items_missing:
  "\<forall>itm \<in> set data. map_of itm (c_field c) = None \<Longrightarrow> filter_items lib data (c # cs) = Inr []"
  by (induction data) (simp_all add: check_condition_def)

lemma apply_conditions_upper_fields:
  assumes "\<forall>c \<in> set cs. \<forall>x \<in> set (c_field c). \<not> is_lower x"
    and "set data \<subseteq> set sample_data"
  shows "apply_conditions lib data cs = Inr (if cs = [] then data else [])"
proof (cases cs)
  case Nil
  then show ?thesis by (simp add: apply_conditions_def)
next
  case (Cons c rest)
  have "\<forall>itm \<in> set data. map_of itm (c_field c) = None"
    using assms Cons sample_field_missing [of "c_field c"] by auto
  from filter_items_missing [OF this] show ?thesis using Cons by (simp add: apply_conditions_def)
qed




lemma data_tool_returns:
  "\<exists>sql d s. fst (data_tool lib llm q a) = Inr (DataResult sql d s)"
proof -
  obtain reply a1 where k: "ask llm (GenerateSql q) a = (reply, a1)" by (cases "ask llm (GenerateSql q) a")
  obtain cs where p: "parse_sql_conditions reply = Inr cs"
    using parse_sql_conditions_returns by blast
  have "\<forall>c \<in> set cs. \<forall>x \<in> set (c_field c). \<not> is_lower x"
    using parse_sql_conditions_upper [OF p] by blast
  from apply_conditions_upper_fields [OF this, of sample_data lib]
  have ap: "apply_conditions lib sample_data cs = Inr (if cs = [] then sample_data else [])"
    by simp
  show ?thesis
    by (simp add: data_tool_def k p ap split: prod.splits)
qed

lemma process_query_returns: "\<exists>res. fst (process_query lib llm q a) = Inr res"
proof -
  obtain tool a1 where r: "route_query llm q a = (tool, a1)" by (cases "route_query llm q a")
  have "\<exists>res. fst (run_handler lib llm (select_handler tool) q a1) = Inr res"
    using data_tool_returns [of lib llm q a1]
    by (cases "select_handler tool") (auto simp: run_handler_def split: prod.splits)
  then obtain res a2 where h: "run_handler lib llm (select_handler tool) q a1 = (Inr res, a2)"
    by (cases "run_handler lib llm (select_handler tool) q a1") auto
  show ?thesis by (simp add: process_query_def r h)
qed

section \<open>Greeting\<close>

lemma good_morning_greets: "handle_greeting ''Good Morning!'' = GreetingResult hello_response"
  by code_simp

lemma good_morning_no_json: "extract_json_from_query loads ''Good Morning!'' = JNull"
proof -
  have "find_enclosed (CHR ''{'') (CHR ''}'') ''Good Morning!'' = []" by code_simp
  moreover have "find_enclosed (CHR ''['') (CHR '']'') ''Good Morning!'' = []" by code_simp
  ultimately show ?thesis by (simp add: extract_json_from_query_def)
qed

lemma process_query_greeting:
  assumes "select_handler (lower (py_strip (llm (Classify q)))) = Greeting"
  shows "process_query lib llm q a =
           (Inr (handle_greeting q), a\<lparr>llm_calls := llm_calls a @ [Classify q]\<rparr>)"
  using assms
  by (simp add: process_query_def route_query_def ask_def run_handler_def handle_greeting_def)

lemma campaign_greeting:
  assumes "llm (Classify q) = Inr reply" and "lower (py_strip reply) = ''greeting''"
    and "\<not> truthy (extract_json_from_query loads q)"
  shows "campaign_process_query lib loads llm q =
           Inr ((initial_state q)\<lparr>st_json_data := extract_json_from_query loads q,
                  st_calls := [Classify q], st_tool := Some ''greeting'',
                  st_result := Some (handle_greeting q)\<rparr>)"
  using assms
  by (simp add: campaign_process_query_def graph_invoke_def and_then_def extract_json_node_def
      route_query_node_def invoke_def initial_state_def next_node_def route_condition_def
      conditional_edges_def run_node_def process_greeting_node_def)

text \<open>C9, as the code has it: in both entry points the query \<^verbatim>\<open>Good Morning!\<close> is classified
  by a request to the language model. When the normalised reply selects the greeting
  handler, that request is the only one sent and the result is the canned hello response.
  The greeting handler is the case-insensitive substring test against the fixed keyword
  list, for every query, and sends nothing.\<close>

theorem greeting_after_one_classification:
  "(select_handler (lower (py_strip (llm (Classify ''Good Morning!'')))) = Greeting \<longrightarrow>
      process_query lib llm ''Good Morning!'' a =
        (Inr (GreetingResult hello_response),
         a\<lparr>llm_calls := llm_calls a @ [Classify ''Good Morning!'']\<rparr>)) \<and>
   (llm_c (Classify ''Good Morning!'') = Inr reply \<and> lower (py_strip reply) = ''greeting'' \<longrightarrow>
      map_sum id (\<lambda>st. (st_result st, st_calls st))
        (campaign_process_query lib loads llm_c ''Good Morning!'')
        = Inr (Some (GreetingResult hello_response), [Classify ''Good Morning!''])) \<and>
   handle_greeting q =
     GreetingResult (if (\<exists>greeting \<in> set greetings. contains greeting (lower q))
                     then hello_response else generic_response) \<and>
   st_result (process_greeting_node s) = Some (handle_greeting (st_query s)) \<and>
   st_calls (process_greeting_node s) = st_calls s"
proof (intro conjI impI)
  show "handle_greeting q =
     GreetingResult (if (\<exists>greeting \<in> set greetings. contains greeting (lower q))
                     then hello_response else generic_response)"
    by (simp add: handle_greeting_def list_ex_iff)
  show "st_result (process_greeting_node s) = Some (handle_greeting (st_query s))"
    by (simp add: process_greeting_node_def)
  show "st_calls (process_greeting_node s) = st_calls s"
    by (simp add: process_greeting_node_def)
next
  assume "select_handler (lower (py_strip (llm (Classify ''Good Morning!'')))) = Greeting"
  from process_query_greeting [of llm "''Good Morning!''" lib a, OF this] show "process_query lib llm ''Good Morning!'' a =
        (Inr (GreetingResult hello_response),
         a\<lparr>llm_calls := llm_calls a @ [Classify ''Good Morning!'']\<rparr>)"
    by (simp add: good_morning_greets)
next
  assume a: "llm_c (Classify ''Good Morning!'') = Inr reply \<and> lower (py_strip reply) = ''greeting''"
  have "\<not> truthy (extract_json_from_query loads ''Good Morning!'')"
    by (simp add: good_morning_no_json)
  from campaign_greeting [of llm_c "''Good Morning!''" reply loads lib, OF conjunct1 [OF a] conjunct2 [OF a] this]
  show "map_sum id (\<lambda>st. (st_result st, st_calls st))
        (campaign_process_query lib loads llm_c ''Good Morning!'')
        = Inr (Some (GreetingResult hello_response), [Classify ''Good Morning!''])"
    by (simp add: good_morning_greets)
qed

theorem greeting_after_one_classification_witness:
  "process_query example_lib (\<lambda>req. ''Greeting'') ''Good Morning!'' init_agent =
     (Inr (GreetingResult hello_response),
      init_agent\<lparr>llm_calls := llm_calls init_agent @ [Classify ''Good Morning!'']\<rparr>) \<and>
   map_sum id (\<lambda>st. (st_result st, st_calls st))
     (campaign_process_query example_lib (\<lambda>s. None) (\<lambda>req. Inr ''Greeting'') ''Good Morning!'')
     = Inr (Some (GreetingResult hello_response), [Classify ''Good Morning!''])"
proof -
  have h1: "select_handler (lower (py_strip ((\<lambda>req. ''Greeting'') (Classify ''Good Morning!'')))) = Greeting"
    by code_simp
  have h2: "lower (py_strip ''Greeting'') = ''greeting''" by code_simp
  show ?thesis
    using greeting_after_one_classification [where llm = "\<lambda>req. ''Greeting''"
        and lib = example_lib and a = init_agent and llm_c = "\<lambda>req. Inr ''Greeting''"
        and reply = "''Greeting''" and loads = "\<lambda>s. None"] h1 h2
    by simp
qed

text \<open>C9 as stated fails: the query \<^verbatim>\<open>Good Morning!\<close> is not processed without a call to the
  language model; its classification is one.\<close>

theorem greeting_needs_llm_call:
  "\<not> (llm_calls (snd (process_query example_lib (\<lambda>req. ''greeting'') ''Good Morning!'' init_agent)) = [])"
  by code_simp

section \<open>Routing\<close>

text \<open>C6 at a reply that is no label: for the reply \<^verbatim>\<open>Fallback.\<close> the state machine of
  \<^verbatim>\<open>src/campaign.py\<close> finds no edge and raises, where \<^verbatim>\<open>src/main.py\<close> answers with the
  fallback.\<close>

theorem campaign_unknown_label_raises:
  "campaign_process_query example_lib (\<lambda>s. None) (\<lambda>req. Inr ''Fallback.'')
      ''What is the weather like today?'' = Inl KeyError \<and>
   fst (process_query example_lib (\<lambda>req. ''Fallback.'') ''What is the weather like today?'' init_agent)
     = Inr (FallbackResult generic_response)"
  by code_simp

lemma select_handler_fallback:
  "\<not> contains ''data_tool'' tool \<Longrightarrow> \<not> contains ''reporting_tool'' tool \<Longrightarrow>
   \<not> contains ''memory_tool'' tool \<Longrightarrow> \<not> contains ''greeting'' tool \<Longrightarrow>
   select_handler tool = Fallback"
  by (simp add: select_handler_def)

lemma campaign_label_not_key:
  assumes "llm (Classify q) = Inr reply"
    and "lower (py_strip reply) \<notin> set (map fst conditional_edges)"
    and "\<not> truthy (extract_json_from_query loads q)"
  shows "campaign_process_query lib loads llm q = Inl KeyError"
proof -
  have "map_of conditional_edges (lower (py_strip reply)) = None"
    using assms(2) by (simp add: map_of_eq_None_iff)
  then show ?thesis
    using assms(1,3)
    by (simp add: campaign_process_query_def graph_invoke_def and_then_def extract_json_node_def
      route_query_node_def invoke_def initial_state_def next_node_def route_condition_def)
qed

text \<open>C5 at two queries with an embedded JSON object: with the reply \<^verbatim>\<open>Reporting Tool\<close> the
  label keeps the reply, which names no edge, and the call raises; with the empty object
  \<^verbatim>\<open>{}\<close> the override does not fire and the data tool answers.\<close>

theorem json_override_missed:
  "campaign_process_query example_lib
      (\<lambda>s. if s = ''{'' @ [dquote] @ ''a'' @ [dquote] @ '': 1}'' then Some (JObj [(''a'', JInt 1)]) else None)
      (\<lambda>req. Inr ''Reporting Tool'')
      (''Format this as a table: {'' @ [dquote] @ ''a'' @ [dquote] @ '': 1}'') = Inl KeyError \<and>
   map_sum id (map_option tool_of \<circ> st_result)
     (campaign_process_query example_lib
        (\<lambda>s. if s = ''{}'' then Some (JObj []) else None)
        (\<lambda>req. case req of Classify q \<Rightarrow> Inr ''data_tool'' | GenerateSql q \<Rightarrow> Inr ''SELECT * FROM campaigns''
                 | _ \<Rightarrow> Inr ''summary'')
        ''Summarize {}'') = Inr (Some ''data_tool'')"
  by code_simp

text \<open>Where the override does fire: a payload that is true in \<^verbatim>\<open>if json_data\<close> and a reply
  without \<^verbatim>\<open>reporting\<close> lead to the reporting node.\<close>

lemma json_override:
  assumes "llm (Classify (st_query st)) = Inr reply" and "truthy (st_json_data st)"
    and "\<not> contains ''reporting'' (lower (py_strip reply))"
  shows "\<exists>st1. route_query_node llm st = Inr st1 \<and> next_node st1 = Inr ProcessReportingTool"
  using assms
  by (simp add: route_query_node_def invoke_def next_node_def route_condition_def conditional_edges_def)

section \<open>Memory across queries\<close>

text \<open>C8 in \<^verbatim>\<open>src/campaign.py\<close>: a data query records its result in the state of its own
  run only; the memory query that follows starts from an empty memory and gets the canned
  answer.\<close>

theorem campaign_memory_not_kept:
  "map_sum id st_memory
     (campaign_process_query example_lib (\<lambda>s. None)
        (\<lambda>req. case req of
                  Classify q \<Rightarrow> Inr (if q = ''Show me all campaigns'' then ''data_tool'' else ''memory_tool'')
                | GenerateSql q \<Rightarrow> Inr ''SELECT * FROM campaigns''
                | _ \<Rightarrow> Inr ''summary'')
        ''Show me all campaigns'')
     = Inr [(''Show me all campaigns'',
             DataResult ''SELECT * FROM campaigns'' campaign_sample_data ''summary'')] \<and>
   map_sum id st_result
     (campaign_process_query example_lib (\<lambda>s. None)
        (\<lambda>req. case req of
                  Classify q \<Rightarrow> Inr (if q = ''Show me all campaigns'' then ''data_tool'' else ''memory_tool'')
                | GenerateSql q \<Rightarrow> Inr ''SELECT * FROM campaigns''
                | _ \<Rightarrow> Inr ''summary'')
        ''Summarize the previous results'')
     = Inr (Some no_memory_result)"
  by code_simp

text \<open>The same two queries in \<^verbatim>\<open>src/main.py\<close>: the second recalls the first.\<close>

lemma main_memory_kept:
  "fst (process_query example_lib
         (\<lambda>req. case req of
                  Classify q \<Rightarrow> (if q = ''Show me all campaigns'' then ''data_tool'' else ''memory_tool'')
                | GenerateSql q \<Rightarrow> ''SELECT * FROM campaigns''
                | _ \<Rightarrow> ''summary'')
         ''Summarize the previous results''
         (snd (process_query example_lib
                 (\<lambda>req. case req of
                    Classify q \<Rightarrow> (if q = ''Show me all campaigns'' then ''data_tool'' else ''memory_tool'')
                  | GenerateSql q \<Rightarrow> ''SELECT * FROM campaigns''
                  | _ \<Rightarrow> ''summary'')
                 ''Show me all campaigns'' init_agent)))
     = Inr (MemoryResult
              [(''Show me all campaigns'', DataResult ''SELECT * FROM campaigns'' sample_data ''summary'')]
              ''summary'')"
  by code_simp

lemma campaign_memory_always_empty:
  assumes "llm (Classify q) = Inr reply" and "lower (py_strip reply) = ''memory_tool''"
    and "\<not> truthy (extract_json_from_query loads q)"
  shows "map_sum id st_result (campaign_process_query lib loads llm q) = Inr (Some no_memory_result)"
  using assms
  by (simp add: campaign_process_query_def graph_invoke_def and_then_def extract_json_node_def
      route_query_node_def invoke_def initial_state_def next_node_def route_condition_def
      conditional_edges_def run_node_def process_memory_tool_node_def)

section \<open>The condition extractor on two clauses\<close>

lemma upper_char_id: "\<not> is_lower c \<Longrightarrow> upper_char c = c"
  by (simp add: upper_char_def is_lower_def lower_letters_def upper_letters_def)

lemma upper_char_lower: "is_lower c \<Longrightarrow> upper_char c \<in> set upper_letters"
  by (auto simp: upper_char_def is_lower_def lower_letters_def upper_letters_def)

lemma upper_char_eq_other:
  assumes "ch \<notin> set upper_letters" and "\<not> is_lower ch"
  shows "(upper_char c = upper_char ch) = (c = ch)"
proof (cases "is_lower c")
  case True
  then show ?thesis using upper_char_lower [OF True] assms upper_char_id [of ch] by auto
next
  case False
  then show ?thesis using assms upper_char_id by auto
qed

lemma space_not_lower: "is_space c \<Longrightarrow> \<not> is_lower c"
  by (auto simp: is_space_def is_lower_def space_chars_def lower_letters_def)

lemma space_not_upper: "is_space c \<Longrightarrow> c \<notin> set upper_letters"
  by (auto simp: is_space_def space_chars_def upper_letters_def)

lemma word_not_space: "is_word c \<Longrightarrow> \<not> is_space c"
  by (auto simp: is_space_def is_word_def space_chars_def lower_letters_def upper_letters_def digit_chars_def)

lemma digit_not_space: "is_digit c \<Longrightarrow> \<not> is_space c"
  by (auto simp: is_space_def is_digit_def space_chars_def digit_chars_def)

lemma digit_is_word: "is_digit c \<Longrightarrow> is_word c"
  by (auto simp: is_word_def is_digit_def)

lemma quote_not_space: "is_quote c \<Longrightarrow> \<not> is_space c"
  by (auto simp: is_space_def is_quote_def space_chars_def)

lemma word_not_quote: "is_word c \<Longrightarrow> \<not> is_quote c"
  by (auto simp: is_quote_def is_word_def lower_letters_def upper_letters_def digit_chars_def)

lemma word_not_special: "is_word c \<Longrightarrow> c \<noteq> CHR ''='' \<and> c \<noteq> CHR ''>'' \<and> c \<noteq> CHR ''<'' \<and> c \<noteq> CHR '';''"
  by (auto simp: is_word_def lower_letters_def upper_letters_def digit_chars_def)

lemma upper_special [simp]:
  "(upper_char c = upper_char (CHR ''='')) = (c = CHR ''='')"
  "(upper_char c = upper_char (CHR ''>'')) = (c = CHR ''>'')"
  "(upper_char c = upper_char (CHR ''<'')) = (c = CHR ''<'')"
  by (simp_all add: upper_char_eq_other upper_letters_def is_lower_def lower_letters_def)

lemma upper_not_lower: "ch \<in> set upper_letters \<Longrightarrow> \<not> is_lower ch"
  by (auto simp: is_lower_def lower_letters_def upper_letters_def)

lemma lit_space: "is_space c \<Longrightarrow> ch \<in> set upper_letters \<Longrightarrow> \<not> cmem (CLit ch) c"
  using upper_char_id [of c] upper_char_id [of ch] space_not_lower [of c] space_not_upper [of c]
    upper_not_lower [of ch]
  by auto

subsection \<open>Greedy repetition that never gives back\<close>

lemma takeWhile_drop_head:
  assumes "n < length (takeWhile P s)"
  shows "\<exists>x xs. drop n s = x # xs \<and> P x"
proof -
  have l: "n < length s" using assms length_takeWhile_le [of P s] by (meson less_le_trans)
  have "P (s ! n)" using assms by (metis nth_mem set_takeWhileD takeWhile_nth)
  then show ?thesis using Cons_nth_drop_Suc [OF l] by metis
qed

lemma concat_map_all_empty: "(\<And>n. n \<in> set ns \<Longrightarrow> f n = []) \<Longrightarrow> concat (map f ns) = []"
  by (induction ns) auto

text \<open>A repetition of a class in front of a pattern that cannot start with a character of the
  class never gives characters back: only the longest run leads to a match.\<close>

lemma seq_star_possessive:
  assumes "\<And>x xs. cmem c x \<Longrightarrow> rmatch r (x # xs) = []"
  shows "rmatch (Seq (Star c) r) s = rmatch r (dropWhile (cmem c) s)"
proof -
  define m where "m = length (takeWhile (cmem c) s)"
  define f where "f = (\<lambda>n. map (\<lambda>(c2, rest2). ([] @ c2, rest2)) (rmatch r (drop n s)))"
  have short: "f n = []" if "n \<in> set (rev [0..<m])" for n
  proof -
    from that have "n < length (takeWhile (cmem c) s)" by (simp add: m_def)
    from takeWhile_drop_head [OF this] obtain x xs where "drop n s = x # xs" "cmem c x" by blast
    then show ?thesis using assms by (simp add: f_def)
  qed
  have "rmatch (Seq (Star c) r) s = concat (map f (rev [0..<Suc m]))"
    by (simp add: f_def m_def comp_def del: upt_Suc)
  also have "\<dots> = f m @ concat (map f (rev [0..<m]))" by simp
  also have "\<dots> = f m" using concat_map_all_empty [of "rev [0..<m]" f] short by simp
  also have "\<dots> = rmatch r (dropWhile (cmem c) s)"
    by (simp add: f_def m_def dropWhile_eq_drop)
  finally show ?thesis .
qed

lemma seq_plus_possessive:
  assumes "\<And>x xs. cmem c x \<Longrightarrow> rmatch r (x # xs) = []"
  shows "rmatch (Seq (Plus c) r) s =
           (if takeWhile (cmem c) s = [] then [] else rmatch r (dropWhile (cmem c) s))"
proof -
  define m where "m = length (takeWhile (cmem c) s)"
  define f where "f = (\<lambda>n. map (\<lambda>(c2, rest2). ([] @ c2, rest2)) (rmatch r (drop n s)))"
  have short: "f n = []" if "n \<in> set (rev [1..<m])" for n
  proof -
    from that have "n < length (takeWhile (cmem c) s)" by (simp add: m_def)
    from takeWhile_drop_head [OF this] obtain x xs where "drop n s = x # xs" "cmem c x" by blast
    then show ?thesis using assms by (simp add: f_def)
  qed
  have e: "rmatch (Seq (Plus c) r) s = concat (map f (rev [1..<Suc m]))"
    by (simp add: f_def m_def comp_def del: upt_Suc)
  show ?thesis
  proof (cases "m = 0")
    case True
    then show ?thesis using e by (simp add: m_def)
  next
    case False
    then have "concat (map f (rev [1..<Suc m])) = f m @ concat (map f (rev [1..<m]))" by simp
    also have "\<dots> = f m" using concat_map_all_empty [of "rev [1..<m]" f] short by simp
    also have "\<dots> = rmatch r (dropWhile (cmem c) s)"
      by (simp add: f_def m_def dropWhile_eq_drop)
    finally show ?thesis using e False by (simp add: m_def)
  qed
qed

lemma seq_group_plus_possessive:
  assumes "\<And>x xs. cmem c x \<Longrightarrow> rmatch r (x # xs) = []"
  shows "rmatch (Seq (Group (Plus c)) r) s =
           (if takeWhile (cmem c) s = [] then []
            else map (\<lambda>(c2, rest). (takeWhile (cmem c) s # c2, rest)) (rmatch r (dropWhile (cmem c) s)))"
proof -
  define m where "m = length (takeWhile (cmem c) s)"
  define f where "f = (\<lambda>n. map (\<lambda>(c2, rest2). (take n s # c2, rest2)) (rmatch r (drop n s)))"
  have ml: "m \<le> length s" by (simp add: m_def length_takeWhile_le)
  have short: "f n = []" if "n \<in> set (rev [1..<m])" for n
  proof -
    from that have "n < length (takeWhile (cmem c) s)" by (simp add: m_def)
    from takeWhile_drop_head [OF this] obtain x xs where "drop n s = x # xs" "cmem c x" by blast
    then show ?thesis using assms by (simp add: f_def)
  qed
  have tk: "take m s = takeWhile (cmem c) s"
    unfolding m_def by (rule takeWhile_eq_take [symmetric])
  have dr: "drop m s = dropWhile (cmem c) s"
    unfolding m_def by (rule dropWhile_eq_drop [symmetric])
  have g: "rmatch (Group (Plus c)) s = map (\<lambda>n. ([take n s], drop n s)) (rev [1..<Suc m])"
    using ml by (auto simp: m_def comp_def simp del: upt_Suc)
  have e: "rmatch (Seq (Group (Plus c)) r) s = concat (map f (rev [1..<Suc m]))"
    unfolding rmatch.simps(6) g by (simp add: f_def comp_def del: upt_Suc rmatch.simps)
  show ?thesis
  proof (cases "m = 0")
    case True
    then show ?thesis using e by (simp add: m_def)
  next
    case False
    then have "concat (map f (rev [1..<Suc m])) = f m @ concat (map f (rev [1..<m]))" by simp
    also have "\<dots> = f m" using concat_map_all_empty [of "rev [1..<m]" f] short by simp
    also have "\<dots> = map (\<lambda>(c2, rest). (takeWhile (cmem c) s # c2, rest)) (rmatch r (dropWhile (cmem c) s))"
      using tk dr by (simp add: f_def)
    finally show ?thesis using e False by (simp add: m_def)
  qed
qed

lemma takeWhile_run: "\<forall>x \<in> set p. P x \<Longrightarrow> \<not> P y \<Longrightarrow> takeWhile P (p @ y # t) = p"
  by (simp add: takeWhile_append2)

lemma dropWhile_run: "\<forall>x \<in> set p. P x \<Longrightarrow> \<not> P y \<Longrightarrow> dropWhile P (p @ y # t) = y # t"
  by (simp add: dropWhile_append2)

lemma space_not_special: "is_space c \<Longrightarrow> c \<noteq> CHR ''='' \<and> c \<noteq> CHR ''>'' \<and> c \<noteq> CHR ''<''"
  by (auto simp: is_space_def space_chars_def)

lemma space_char [simp]: "is_space (CHR '' '')"
  by (simp add: is_space_def space_chars_def)

lemma nonspace_chars [simp]:
  "\<not> is_space (CHR ''='')" "\<not> is_space (CHR ''>'')" "\<not> is_space (CHR ''<'')"
  "\<not> is_space squote"
  by (simp_all add: is_space_def space_chars_def)

lemma squote_quote [simp]: "is_quote squote"
  by (simp add: is_quote_def)

lemma seq_atom:
  "rmatch (Seq (Atom c) r) s = (case s of [] \<Rightarrow> [] | x # xs \<Rightarrow> if cmem c x then rmatch r xs else [])"
  by (cases s) auto

text \<open>The tail of a comparison pattern, from the operator on, cannot start at a blank, and the
  tail from the blanks before the operator on cannot start at a word character.\<close>

lemma after_field_fails:
  assumes op: "op = CHR ''='' \<or> op = CHR ''>'' \<or> op = CHR ''<''" and w: "is_word x"
  shows "rmatch (Seq (Star CSpace) (Seq (Atom (CLit op)) r)) (x # xs) = []"
proof -
  have s2: "rmatch (Seq (Atom (CLit op)) r) (y # ys) = []" if "cmem CSpace y" for y ys
    using that op space_not_special [of y] by auto
  have "rmatch (Seq (Star CSpace) (Seq (Atom (CLit op)) r)) (x # xs)
          = rmatch (Seq (Atom (CLit op)) r) (dropWhile (cmem CSpace) (x # xs))"
    by (rule seq_star_possessive) (rule s2)
  also have "\<dots> = rmatch (Seq (Atom (CLit op)) r) (x # xs)"
    using word_not_space [OF w] by simp
  also have "\<dots> = []" using op word_not_special [OF w] by auto
  finally show ?thesis .
qed

lemma pat_string_eq_match:
  assumes "f \<noteq> []" and "\<forall>x \<in> set f. is_word x" and "X \<noteq> []" and "\<forall>x \<in> set X. \<not> is_quote x"
  shows "rmatch pat_string_eq (f @ '' = '' @ [squote] @ X @ squote # rest) = [([f, X], rest)]"
proof -
  define R6 where "R6 = Seq (Atom CQuote) Eps"
  define R5 where "R5 = Seq (Group (Plus CNotQuote)) R6"
  define R4 where "R4 = Seq (Atom CQuote) R5"
  define R2 where "R2 = Seq (Atom (CLit (CHR ''=''))) (Seq (Star CSpace) R4)"
  define R1 where "R1 = Seq (Star CSpace) R2"
  have p: "pat_string_eq = Seq (Group (Plus CWord)) R1"
    by (simp add: pat_string_eq_def R1_def R2_def R4_def R5_def R6_def)
  have s6: "rmatch R6 (x # xs) = []" if "cmem CNotQuote x" for x xs
    using that by (simp add: R6_def)
  have s4: "rmatch R4 (x # xs) = []" if "cmem CSpace x" for x xs
    using that quote_not_space [of x] by (auto simp: R4_def)
  have s2: "rmatch R2 (x # xs) = []" if "cmem CSpace x" for x xs
    using that space_not_special [of x] by (auto simp: R2_def)
  have s1: "rmatch R1 (x # xs) = []" if "cmem CWord x" for x xs
    unfolding R1_def R2_def using that by (intro after_field_fails) simp_all
  have ns: "\<not> is_word (CHR '' '')" using word_not_space [of "CHR '' ''"] by auto
  have m6: "rmatch R6 (squote # rest) = [([], rest)]" by (simp add: R6_def)
  have p5: "rmatch (Seq (Group (Plus CNotQuote)) R6) s =
           (if takeWhile (cmem CNotQuote) s = [] then []
            else map (\<lambda>(c2, rest). (takeWhile (cmem CNotQuote) s # c2, rest))
                   (rmatch R6 (dropWhile (cmem CNotQuote) s)))" for s
    by (rule seq_group_plus_possessive) (rule s6)
  have m5: "rmatch R5 (X @ squote # rest) = [([X], rest)]"
    unfolding R5_def p5
    using assms(3,4) by (simp add: takeWhile_append2 dropWhile_append2 m6)
  have m4: "rmatch R4 (squote # X @ squote # rest) = [([X], rest)]"
    using m5 by (simp add: R4_def)
  have p3: "rmatch (Seq (Star CSpace) R4) s = rmatch R4 (dropWhile (cmem CSpace) s)" for s
    by (rule seq_star_possessive) (rule s4)
  have m3: "rmatch (Seq (Star CSpace) R4) (CHR '' '' # squote # X @ squote # rest) = [([X], rest)]"
    unfolding p3
    using m4 by simp
  have m2: "rmatch R2 (CHR ''='' # CHR '' '' # squote # X @ squote # rest) = [([X], rest)]"
    using m3 by (simp add: R2_def seq_atom del: rmatch.simps)
  have p1: "rmatch (Seq (Star CSpace) R2) s = rmatch R2 (dropWhile (cmem CSpace) s)" for s
    by (rule seq_star_possessive) (rule s2)
  have p0: "rmatch (Seq (Group (Plus CWord)) R1) s =
           (if takeWhile (cmem CWord) s = [] then []
            else map (\<lambda>(c2, rest). (takeWhile (cmem CWord) s # c2, rest))
                   (rmatch R1 (dropWhile (cmem CWord) s)))" for s
    by (rule seq_group_plus_possessive) (rule s1)
  have m1: "rmatch R1 (CHR '' '' # CHR ''='' # CHR '' '' # squote # X @ squote # rest) = [([X], rest)]"
    unfolding R1_def p1
    using m2 by simp
  have t: "takeWhile (cmem CWord) (f @ CHR '' '' # CHR ''='' # CHR '' '' # squote # X @ squote # rest) = f"
    using assms(2) ns by (simp add: takeWhile_append2)
  have d: "dropWhile (cmem CWord) (f @ CHR '' '' # CHR ''='' # CHR '' '' # squote # X @ squote # rest)
             = CHR '' '' # CHR ''='' # CHR '' '' # squote # X @ squote # rest"
    using assms(2) ns by (simp add: dropWhile_append2)
  show ?thesis
    unfolding p p0
    using assms(1) by (simp add: t d m1 del: rmatch.simps)
qed

lemma pat_gt_match:
  assumes "g \<noteq> []" and "\<forall>x \<in> set g. is_word x" and "n \<noteq> []" and "\<forall>x \<in> set n. is_digit x"
  shows "\<exists>ms. rmatch pat_gt (g @ '' > '' @ n) = ([g, n], []) # ms"
proof -
  define R4 where "R4 = Seq (Group (Plus CDigit)) Eps"
  define R2 where "R2 = Seq (Atom (CLit (CHR ''>''))) (Seq (Star CSpace) R4)"
  define R1 where "R1 = Seq (Star CSpace) R2"
  have p: "pat_gt = Seq (Group (Plus CWord)) R1"
    by (simp add: pat_gt_def R1_def R2_def R4_def)
  have s4: "rmatch R4 (x # xs) = []" if "cmem CSpace x" for x xs
    using that digit_not_space [of x] by (auto simp: R4_def)
  have s2: "rmatch R2 (x # xs) = []" if "cmem CSpace x" for x xs
    using that space_not_special [of x] by (auto simp: R2_def)
  have s1: "rmatch R1 (x # xs) = []" if "cmem CWord x" for x xs
    unfolding R1_def R2_def using that by (intro after_field_fails) simp_all
  have ns: "\<not> is_word (CHR '' '')" using word_not_space [of "CHR '' ''"] by auto
  have tn: "takeWhile (cmem CDigit) n = n" using assms(4) by (simp add: takeWhile_eq_all_conv)
  have ln: "0 < length n" using assms(3) by simp
  have "rmatch (Group (Plus CDigit)) n = map (\<lambda>k. ([take k n], drop k n)) (rev [1..<Suc (length n)])"
    unfolding rmatch.simps tn by (auto simp: comp_def simp del: upt_Suc)
  also have "\<dots> = ([n], []) # map (\<lambda>k. ([take k n], drop k n)) (rev [1..<length n])"
    using ln by (simp add: Suc_le_eq)
  finally have g4: "rmatch (Group (Plus CDigit)) n
      = ([n], []) # map (\<lambda>k. ([take k n], drop k n)) (rev [1..<length n])" .
  have "\<exists>ms. rmatch R4 n = ([n], []) # ms"
    unfolding R4_def rmatch.simps(6) g4 by simp
  then obtain ms where m4: "rmatch R4 n = ([n], []) # ms" ..
  obtain d ds where n: "n = d # ds" using assms(3) by (cases n) auto
  have dsp: "\<not> is_space d" using assms(4) n digit_not_space by auto
  have p3: "rmatch (Seq (Star CSpace) R4) s = rmatch R4 (dropWhile (cmem CSpace) s)" for s
    by (rule seq_star_possessive) (rule s4)
  have m3: "rmatch (Seq (Star CSpace) R4) (CHR '' '' # n) = ([n], []) # ms"
    unfolding p3
    using m4 dsp n by simp
  have m2: "rmatch R2 (CHR ''>'' # CHR '' '' # n) = ([n], []) # ms"
    using m3 by (simp add: R2_def seq_atom del: rmatch.simps)
  have p1: "rmatch (Seq (Star CSpace) R2) s = rmatch R2 (dropWhile (cmem CSpace) s)" for s
    by (rule seq_star_possessive) (rule s2)
  have p0: "rmatch (Seq (Group (Plus CWord)) R1) s =
           (if takeWhile (cmem CWord) s = [] then []
            else map (\<lambda>(c2, rest). (takeWhile (cmem CWord) s # c2, rest))
                   (rmatch R1 (dropWhile (cmem CWord) s)))" for s
    by (rule seq_group_plus_possessive) (rule s1)
  have m1: "rmatch R1 (CHR '' '' # CHR ''>'' # CHR '' '' # n) = ([n], []) # ms"
    unfolding R1_def p1
    using m2 by simp
  have t: "takeWhile (cmem CWord) (g @ CHR '' '' # CHR ''>'' # CHR '' '' # n) = g"
    using assms(2) ns by (simp add: takeWhile_append2)
  have d: "dropWhile (cmem CWord) (g @ CHR '' '' # CHR ''>'' # CHR '' '' # n)
             = CHR '' '' # CHR ''>'' # CHR '' '' # n"
    using assms(2) ns by (simp add: dropWhile_append2)
  show ?thesis
    unfolding p p0
    using assms(1) by (simp add: t d m1 del: rmatch.simps)
qed

lemma re_search_at_start:
  "rmatch r (x # xs) = m # ms \<Longrightarrow> re_search r (x # xs) = Some (fst m)"
  by (simp add: match_at_def)

text \<open>A pattern with a literal after two parts finds nothing in a text without that
  character.\<close>

lemma needs_literal:
  assumes "(caps, rest) \<in> set (rmatch (Seq a (Seq b (Seq (Atom (CLit ch)) r))) s)"
  shows "\<exists>x \<in> set s. cmem (CLit ch) x"
proof -
  from assms obtain c1 m1 c2 m2 c3 m3 where
    a: "(c1, m1) \<in> set (rmatch a s)" and b: "(c2, m2) \<in> set (rmatch b m1)"
    and l: "(c3, m3) \<in> set (rmatch (Atom (CLit ch)) m2)"
    by (auto simp del: rmatch.simps(2))
  from l obtain x where x: "m2 = x # m3" "cmem (CLit ch) x"
    by (cases m2) (auto split: if_splits)
  from rmatch_sound [OF a] obtain p1 where "s = p1 @ m1" by blast
  moreover from rmatch_sound [OF b] obtain p2 where "m1 = p2 @ m2" by blast
  ultimately have "x \<in> set s" using x by simp
  then show ?thesis using x by blast
qed

lemma re_search_none:
  "(\<And>t. set t \<subseteq> set s \<Longrightarrow> rmatch r t = []) \<Longrightarrow> re_search r s = None"
proof (induction s)
  case Nil
  then show ?case by (simp add: match_at_def)
next
  case (Cons x xs)
  have "rmatch r (x # xs) = []" using Cons.prems by simp
  moreover have "re_search r xs = None" using Cons by (simp add: subset_insertI2)
  ultimately show ?case by (simp add: match_at_def)
qed

lemma no_equals_no_match:
  assumes "CHR ''='' \<notin> set s"
  shows "re_search pat_string_eq s = None" and "re_search pat_num_eq s = None"
proof -
  have 1: "rmatch pat_string_eq t = []" if "set t \<subseteq> set s" for t
  proof (cases "rmatch pat_string_eq t")
    case (Cons m ms)
    then have "(fst m, snd m) \<in> set (rmatch pat_string_eq t)" by simp
    from needs_literal [OF this [unfolded pat_string_eq_def seqs.simps]]
    show ?thesis using that assms by auto
  qed simp
  have 2: "rmatch pat_num_eq t = []" if "set t \<subseteq> set s" for t
  proof (cases "rmatch pat_num_eq t")
    case (Cons m ms)
    then have "(fst m, snd m) \<in> set (rmatch pat_num_eq t)" by simp
    from needs_literal [OF this [unfolded pat_num_eq_def seqs.simps]]
    show ?thesis using that assms by auto
  qed simp
  show "re_search pat_string_eq s = None" using 1 by (rule re_search_none)
  show "re_search pat_num_eq s = None" using 2 by (rule re_search_none)
qed

subsection \<open>Splitting at the separator\<close>

text \<open>From here on the matcher is used through the lemmas above.\<close>

declare rmatch.simps [simp del] lit.simps [simp del] seqs.simps [simp del]

lemma re_split_skip1:
  "match_at r (x # t) = None \<Longrightarrow> re_split_from r acc (x # t) = re_split_from r (acc @ [x]) t"
  by (simp add: re_split_from.simps [of r acc "x # t"])

lemma re_split_skip:
  "(\<And>i. i < length p \<Longrightarrow> match_at r (drop i p @ t) = None)
     \<Longrightarrow> re_split_from r acc (p @ t) = re_split_from r (acc @ p) t"
proof (induction p arbitrary: acc)
  case Nil
  then show ?case by simp
next
  case (Cons x p)
  have h: "match_at r (x # p @ t) = None" using Cons.prems [of 0] by simp
  have "re_split_from r (acc @ [x]) (p @ t) = re_split_from r ((acc @ [x]) @ p) t"
  proof (rule Cons.IH)
    fix i assume "i < length p"
    then show "match_at r (drop i p @ t) = None" using Cons.prems [of "Suc i"] by simp
  qed
  then show ?case using re_split_skip1 [OF h, of acc] by simp
qed

lemma re_split_hit:
  "match_at r (x # t) = Some (caps, rest) \<Longrightarrow> length rest < length (x # t)
     \<Longrightarrow> re_split_from r acc (x # t) = acc # re_split_from r [] rest"
  by (simp add: re_split_from.simps [of r acc "x # t"])

lemma re_split_end: "re_split_from r acc [] = [acc]"
  by (simp add: re_split_from.simps)

lemma lit_match:
  "rmatch (lit w) s =
     (if length w \<le> length s \<and> upper (take (length w) s) = upper w
      then [([], drop (length w) s)] else [])"
proof (induction w arbitrary: s)
  case Nil
  then show ?case by (simp add: upper_def lit.simps rmatch.simps)
next
  case (Cons c w)
  show ?case
  proof (cases s)
    case Nil
    then show ?thesis by (simp add: seq_atom lit.simps)
  next
    case (Cons x xs)
    then show ?thesis using Cons.IH [of xs]
      by (simp add: seq_atom upper_def lit.simps)
  qed
qed

lemma seq_lit:
  "rmatch (Seq (lit w) r) s =
     (if length w \<le> length s \<and> upper (take (length w) s) = upper w
      then rmatch r (drop (length w) s) else [])"
  by (auto simp: lit_match rmatch.simps(6))

lemma upper_keywords: "upper ''AND'' = ''AND''" "upper ''OR'' = ''OR''"
  by code_simp+

lemma upper_quotes: "upper_char squote = squote" "upper_char dquote = dquote"
  by code_simp+

lemma upper_mem: "q \<in> set xs \<Longrightarrow> upper_char q \<in> set (upper xs)"
  by (simp add: upper_def)

lemma plus_end:
  "rmatch (Seq (Plus c) Eps) s = map (\<lambda>n. ([], drop n s)) (rev [1..<Suc (length (takeWhile (cmem c) s))])"
  by (simp add: comp_def rmatch.simps del: upt_Suc)

lemma plus_end_empty: "(rmatch (Seq (Plus c) Eps) s = []) = (s = [] \<or> \<not> cmem c (hd s))"
  unfolding plus_end by (cases s) (auto simp del: upt_Suc)

text \<open>The separator pattern after its leading blanks: a keyword and at least one blank.\<close>

lemma keyword_match:
  "(rmatch (Seq (lit w) (Seq (Plus CSpace) Eps)) d \<noteq> []) =
     (length w < length d \<and> upper (take (length w) d) = upper w \<and> is_space (d ! length w))"
proof (cases "length w < length d")
  case True
  then have "drop (length w) d \<noteq> []" by simp
  moreover have "hd (drop (length w) d) = d ! length w" using True by (simp add: hd_drop_conv_nth)
  ultimately show ?thesis using True
    by (auto simp: seq_lit plus_end_empty)
next
  case False
  then have "length w \<le> length d \<Longrightarrow> drop (length w) d = []" by simp
  then show ?thesis using False
    by (auto simp: seq_lit plus_end_empty)
qed

lemma keyword_transfer:
  assumes "rmatch (Seq (lit w) (Seq (Plus CSpace) Eps)) (u @ q # rest) \<noteq> []"
    and "\<not> is_space q" and "upper_char q \<notin> set (upper w)"
  shows "rmatch (Seq (lit w) (Seq (Plus CSpace) Eps)) u \<noteq> []"
proof -
  let ?d = "u @ q # rest"
  from assms(1) have l: "length w < length ?d" and t: "upper (take (length w) ?d) = upper w"
    and s: "is_space (?d ! length w)"
    unfolding keyword_match by auto
  have lu: "length w < length u"
  proof (rule ccontr)
    assume n: "\<not> length w < length u"
    show False
    proof (cases "length w = length u")
      case True
      then have "?d ! length w = q" by simp
      then show False using s assms(2) by simp
    next
      case False
      with n have lt: "length u < length w" by simp
      then have "take (length w) ?d ! length u = q"
        using l by (simp add: nth_append)
      moreover have "length u < length (take (length w) ?d)" using lt l by simp
      ultimately have "q \<in> set (take (length w) ?d)" by (metis nth_mem)
      then have "upper_char q \<in> set (upper (take (length w) ?d))" by (rule upper_mem)
      then show False using assms(3) unfolding t by simp
    qed
  qed
  then have "take (length w) ?d = take (length w) u" and "?d ! length w = u ! length w"
    by (simp_all add: nth_append)
  then show ?thesis using lu t s unfolding keyword_match by simp
qed

lemma keyword_at_blank:
  assumes cs: "cmem CSpace x" and wn: "w \<noteq> []" and ws: "set w \<subseteq> set upper_letters"
  shows "rmatch (Seq (lit w) r) (x # xs) = []"
proof -
  obtain c cs where w: "w = c # cs" using wn by (cases w) auto
  have "\<not> cmem (CLit c) x" using lit_space [of x c] cs ws w by auto
  then have "upper (take (length w) (x # xs)) \<noteq> upper w" by (simp add: w upper_def)
  then show ?thesis unfolding seq_lit by simp
qed

lemma split_pattern_unfold:
  "rmatch split_pattern s =
     (if takeWhile is_space s = [] then []
      else rmatch (Seq (lit ''AND'') (Seq (Plus CSpace) Eps)) (dropWhile is_space s)) @
     (if takeWhile is_space s = [] then []
      else rmatch (Seq (lit ''OR'') (Seq (Plus CSpace) Eps)) (dropWhile is_space s))"
proof -
  have pa: "rmatch (Seq (Plus CSpace) (Seq (lit ''AND'') (Seq (Plus CSpace) Eps))) s =
      (if takeWhile (cmem CSpace) s = [] then []
       else rmatch (Seq (lit ''AND'') (Seq (Plus CSpace) Eps)) (dropWhile (cmem CSpace) s))"
    by (rule seq_plus_possessive) (rule keyword_at_blank, simp_all add: upper_letters_def)
  have po: "rmatch (Seq (Plus CSpace) (Seq (lit ''OR'') (Seq (Plus CSpace) Eps))) s =
      (if takeWhile (cmem CSpace) s = [] then []
       else rmatch (Seq (lit ''OR'') (Seq (Plus CSpace) Eps)) (dropWhile (cmem CSpace) s))"
    by (rule seq_plus_possessive) (rule keyword_at_blank, simp_all add: upper_letters_def)
  have e: "cmem CSpace = is_space" by (rule ext) simp
  have sp: "split_pattern = Alt (Seq (Plus CSpace) (Seq (lit ''AND'') (Seq (Plus CSpace) Eps)))
                            (Seq (Plus CSpace) (Seq (lit ''OR'') (Seq (Plus CSpace) Eps)))"
    by (simp add: split_pattern_def seqs.simps)
  show ?thesis unfolding sp rmatch.simps(7) pa po e by simp
qed

lemma no_separator_nonspace:
  "s = [] \<or> \<not> is_space (hd s) \<Longrightarrow> match_at split_pattern s = None"
  unfolding match_at_def split_pattern_unfold by (cases s) auto

lemma no_separator_in_run:
  assumes "\<forall>x \<in> set p. \<not> is_space x" and "i < length p"
  shows "match_at split_pattern (drop i p @ t) = None"
proof -
  from assms(2) obtain y ys where d: "drop i p = y # ys" by (cases "drop i p") auto
  then have "y \<in> set p" by (metis in_set_dropD list.set_intros(1))
  then show ?thesis using assms(1) d by (intro no_separator_nonspace) simp
qed

lemma keyword_other_start:
  assumes "w \<noteq> []" and "upper_char y \<noteq> hd (upper w)"
  shows "rmatch (Seq (lit w) (Seq (Plus CSpace) Eps)) (y # t) = []"
proof -
  obtain c cs where w: "w = c # cs" using assms(1) by (cases w) auto
  have "upper (take (length w) (y # t)) \<noteq> upper w"
    using assms(2) by (simp add: w upper_def)
  then show ?thesis unfolding seq_lit by simp
qed

lemma no_separator_after_blank:
  assumes "is_space x" and "\<not> is_space y" and "upper_char y \<noteq> CHR ''A''" and "upper_char y \<noteq> CHR ''O''"
  shows "match_at split_pattern (x # y # t) = None"
proof -
  have d: "dropWhile is_space (x # y # t) = y # t" using assms(1,2) by simp
  have "rmatch (Seq (lit ''AND'') (Seq (Plus CSpace) Eps)) (y # t) = []"
    using assms(3) by (intro keyword_other_start) (simp_all add: upper_keywords)
  moreover have "rmatch (Seq (lit ''OR'') (Seq (Plus CSpace) Eps)) (y # t) = []"
    using assms(4) by (intro keyword_other_start) (simp_all add: upper_keywords)
  ultimately show ?thesis
    unfolding match_at_def split_pattern_unfold d by simp
qed

text \<open>A text in which the separator is nowhere found stays so in front of a quote.\<close>

lemma no_separator_before_quote:
  assumes "match_at split_pattern u = None" and "is_quote q"
  shows "match_at split_pattern (u @ q # rest) = None"
proof (cases "u = [] \<or> \<not> is_space (hd u)")
  case True
  then have "u @ q # rest = [] \<or> \<not> is_space (hd (u @ q # rest))"
    using quote_not_space [OF assms(2)] by (cases u) auto
  then show ?thesis by (rule no_separator_nonspace)
next
  case False
  then obtain x xs where u: "u = x # xs" and x: "is_space x" by (cases u) auto
  have nq: "\<not> is_space q" using quote_not_space [OF assms(2)] .
  have uq: "upper_char q \<notin> set (upper ''AND'')" "upper_char q \<notin> set (upper ''OR'')"
    using assms(2) by (auto simp: is_quote_def upper_keywords upper_quotes)
  have d: "dropWhile is_space (u @ q # rest) = dropWhile is_space u @ q # rest"
    using nq by (simp add: dropWhile_append)
  have tu: "takeWhile is_space u \<noteq> []" using u x by simp
  have tq: "takeWhile is_space (u @ q # rest) \<noteq> []" using u x by simp
  from assms(1) have
    a: "rmatch (Seq (lit ''AND'') (Seq (Plus CSpace) Eps)) (dropWhile is_space u) = []" and
    o: "rmatch (Seq (lit ''OR'') (Seq (Plus CSpace) Eps)) (dropWhile is_space u) = []"
    unfolding match_at_def split_pattern_unfold using tu by (auto split: list.splits)
  have a': "rmatch (Seq (lit ''AND'') (Seq (Plus CSpace) Eps)) (dropWhile is_space u @ q # rest) = []"
    using keyword_transfer [of "''AND''" "dropWhile is_space u" q rest, OF _ nq uq(1)] a by blast
  have o': "rmatch (Seq (lit ''OR'') (Seq (Plus CSpace) Eps)) (dropWhile is_space u @ q # rest) = []"
    using keyword_transfer [of "''OR''" "dropWhile is_space u" q rest, OF _ nq uq(2)] o by blast
  show ?thesis unfolding match_at_def split_pattern_unfold d using a' o' tq by simp
qed

lemma re_search_none_everywhere:
  "re_search r s = None \<Longrightarrow> i \<le> length s \<Longrightarrow> match_at r (drop i s) = None"
proof (induction s arbitrary: i)
  case Nil
  then show ?case by simp
next
  case (Cons x xs)
  from Cons.prems(1) have h: "match_at r (x # xs) = None" and t: "re_search r xs = None"
    by (auto split: option.splits)
  show ?case
  proof (cases i)
    case 0
    then show ?thesis using h by simp
  next
    case (Suc j)
    then show ?thesis using Cons.IH [OF t, of j] Cons.prems(2) by simp
  qed
qed

lemma separator_hit:
  assumes "is_word y"
  shows "match_at split_pattern ('' AND '' @ y # t) = Some ([], y # t)"
proof -
  have d: "dropWhile is_space ('' AND '' @ y # t) = ''AND '' @ y # t"
    by (simp add: is_space_def space_chars_def)
  have tk: "takeWhile is_space ('' AND '' @ y # t) \<noteq> []" by simp
  have ny: "\<not> is_space y" using word_not_space [OF assms] .
  have u: "upper (take (length ''AND'') (''AND '' @ y # t)) = upper ''AND''" by simp
  have e: "rmatch (Seq (Plus CSpace) Eps) (CHR '' '' # y # t) = [([], y # t)]"
    unfolding plus_end using ny by simp
  have "rmatch (Seq (lit ''AND'') (Seq (Plus CSpace) Eps)) (''AND '' @ y # t) = [([], y # t)]"
    unfolding seq_lit using u e by simp
  moreover have "rmatch (Seq (lit ''OR'') (Seq (Plus CSpace) Eps)) (''AND '' @ y # t) = []"
  proof -
    have "upper_char (CHR ''A'') \<noteq> hd (upper ''OR'')" by code_simp
    from keyword_other_start [OF _ this, of "''ND '' @ y # t"] show ?thesis by simp
  qed
  ultimately show ?thesis unfolding match_at_def split_pattern_unfold d using tk by simp
qed

subsection \<open>The two clauses\<close>

lemma py_strip_id:
  assumes "s \<noteq> []" and "\<not> is_space (hd s)" and "\<not> is_space (last s)"
  shows "py_strip s = s"
proof -
  have 1: "dropWhile is_space s = s" using assms(1,2) by (cases s) auto
  have "rev s = rev (butlast s @ [last s])" using assms(1) by simp
  also have "\<dots> = last s # rev (butlast s)" by simp
  finally have r: "rev s = last s # rev (butlast s)" .
  have 2: "dropWhile is_space (rev s) = rev s" unfolding r using assms(3) by simp
  show ?thesis by (simp add: py_strip_def 1 2)
qed

lemma not_endswith:
  assumes "s \<noteq> []" and "last s \<noteq> c"
  shows "\<not> endswith s [c]"
proof -
  have "rev s = rev (butlast s @ [last s])" using assms(1) by simp
  also have "\<dots> = last s # rev (butlast s)" by simp
  finally have r: "rev s = last s # rev (butlast s)" .
  show ?thesis unfolding endswith_def r using assms(2) by simp
qed

lemma startswith_sep:
  "c \<notin> set sub \<Longrightarrow> startswith (a @ c # b) sub = startswith a sub"
proof (induction a arbitrary: sub)
  case Nil
  then show ?case by (cases sub) auto
next
  case (Cons x a)
  then show ?case by (cases sub) auto
qed

lemma contains_sep:
  assumes "c \<notin> set sub" and "sub \<noteq> []"
  shows "contains sub (a @ c # b) = (contains sub a \<or> contains sub b)"
proof (induction a)
  case Nil
  have "startswith (c # b) sub = False" using assms by (cases sub) auto
  then show ?case using assms(2) by simp
next
  case (Cons x a)
  have "startswith (x # a @ c # b) sub = startswith (x # a) sub"
    using startswith_sep [OF assms(1), of "x # a" b] by simp
  then show ?case using Cons by auto
qed

lemma upper_append: "upper (a @ b) = upper a @ upper b"
  by (simp add: upper_def)

lemma upper_marks:
  "upper_char (CHR '' '') = CHR '' ''" "upper_char (CHR ''='') = CHR ''=''"
  "upper_char squote = squote"
  by code_simp+

lemma first_clause:
  assumes f: "f \<noteq> []" "\<forall>x \<in> set f. is_word x" "\<not> contains ''LIKE'' (upper f)"
    and X: "X \<noteq> []" "\<forall>x \<in> set X. \<not> is_quote x" "CHR ''<'' \<notin> set X" "CHR ''>'' \<notin> set X"
      "\<not> contains ''LIKE'' (upper X)"
  shows "clause_condition (f @ '' = '' @ [squote] @ X @ [squote])
           = Some \<lparr>c_field = f, c_operator = ''='', c_value = X\<rparr>"
proof -
  let ?p = "f @ '' = '' @ [squote] @ X @ [squote]"
  obtain y ys where fy: "f = y # ys" using f(1) by (cases f) auto
  have wy: "is_word y" using f(2) fy by simp
  have strip: "py_strip ?p = ?p"
    using word_not_space [OF wy] by (intro py_strip_id) (simp_all add: fy)
  have semi: "\<not> endswith ?p '';''" by (intro not_endswith) simp_all
  have "rmatch pat_string_eq (f @ '' = '' @ [squote] @ X @ squote # []) = [([f, X], [])]"
    using f(1,2) X(1,2) by (rule pat_string_eq_match)
  then have "rmatch pat_string_eq (y # ys @ '' = '' @ [squote] @ X @ [squote]) = [([f, X], [])]"
    by (simp add: fy)
  from re_search_at_start [OF this] have "re_search pat_string_eq ?p = Some [f, X]"
    by (simp add: fy)
  then have fm: "first_match patterns ?p = Some [f, X]" by (simp add: patterns_def)
  have ws: "\<forall>x \<in> set f. x \<noteq> CHR ''>'' \<and> x \<noteq> CHR ''<''"
    using f(2) word_not_special by blast
  have gt: "CHR ''>'' \<notin> set ?p" using ws X(4) by auto
  have lt: "CHR ''<'' \<notin> set ?p" using ws X(3) by auto
  have up: "upper ?p = upper f @ CHR '' '' # ([] @ CHR ''='' # ([] @ CHR '' '' # ([] @ squote # (upper X @ squote # []))))"
    by (simp add: upper_append) (simp add: upper_def upper_marks)
  have like: "\<not> contains ''LIKE'' (upper ?p)"
    unfolding up using f(3) X(5) by (simp add: contains_sep del: append_Nil append_Cons contains.simps(2))
  show ?thesis
    unfolding clause_condition_def strip Let_def using semi fm gt lt like by simp
qed

lemma second_clause:
  assumes g: "g \<noteq> []" "\<forall>x \<in> set g. is_word x"
    and n: "n \<noteq> []" "\<forall>x \<in> set n. is_digit x"
  shows "clause_condition (g @ '' > '' @ n) = Some \<lparr>c_field = g, c_operator = ''>'', c_value = n\<rparr>"
proof -
  let ?p = "g @ '' > '' @ n"
  obtain y ys where gy: "g = y # ys" using g(1) by (cases g) auto
  have wy: "is_word y" using g(2) gy by simp
  have ld: "is_digit (last n)" using n by simp
  have strip: "py_strip ?p = ?p"
    using word_not_space [OF wy] digit_not_space [OF ld] n(1) by (intro py_strip_id) (simp_all add: gy)
  have "last ?p \<noteq> CHR '';''" using word_not_special [OF digit_is_word [OF ld]] n(1) by simp
  then have semi: "\<not> endswith ?p '';''" by (intro not_endswith) simp_all
  have ne: "CHR ''='' \<notin> set ?p"
    using g(2) n(2) word_not_special digit_is_word by auto
  from pat_gt_match [OF g n] obtain ms where "rmatch pat_gt ?p = ([g, n], []) # ms" by blast
  then have "rmatch pat_gt (y # ys @ '' > '' @ n) = ([g, n], []) # ms" by (simp add: gy)
  from re_search_at_start [OF this] have "re_search pat_gt ?p = Some [g, n]" by (simp add: gy)
  then have fm: "first_match patterns ?p = Some [g, n]"
    using no_equals_no_match [OF ne] by (simp add: patterns_def)
  have gt: "CHR ''>'' \<in> set ?p" by simp
  show ?thesis
    unfolding clause_condition_def strip Let_def using semi fm gt by simp
qed

lemma two_clause_split:
  assumes f: "\<forall>x \<in> set f. is_word x"
    and g: "g \<noteq> []" "\<forall>x \<in> set g. is_word x"
    and n: "n \<noteq> []" "\<forall>x \<in> set n. is_digit x"
    and X: "\<forall>x \<in> set X. \<not> is_quote x" "re_search split_pattern X = None"
  shows "re_split split_pattern (f @ '' = '' @ [squote] @ X @ [squote] @ '' AND '' @ g @ '' > '' @ n)
           = [f @ '' = '' @ [squote] @ X @ [squote], g @ '' > '' @ n]"
proof -
  let ?r = split_pattern
  let ?p2 = "g @ '' > '' @ n"
  let ?t4 = "'' AND '' @ ?p2"
  let ?t3 = "squote # ?t4"
  let ?t2 = "X @ ?t3"
  let ?t1 = "CHR '' '' # CHR ''='' # CHR '' '' # squote # ?t2"
  obtain y ys where gy: "g = y # ys" using g(1) by (cases g) auto
  have wy: "is_word y" using g(2) gy by simp
  obtain d ds where nd: "n = d # ds" using n(1) by (cases n) auto
  have dd: "is_digit d" using n(2) nd by simp
  have fs: "\<forall>x \<in> set f. \<not> is_space x" using f word_not_space by blast
  have gs: "\<forall>x \<in> set g. \<not> is_space x" using g(2) word_not_space by blast
  have ns: "\<forall>x \<in> set n. \<not> is_space x" using n(2) digit_not_space by blast
  have marks: "upper_char (CHR ''='') \<noteq> CHR ''A''" "upper_char (CHR ''='') \<noteq> CHR ''O''"
    "upper_char squote \<noteq> CHR ''A''" "upper_char squote \<noteq> CHR ''O''"
    "upper_char (CHR ''>'') \<noteq> CHR ''A''" "upper_char (CHR ''>'') \<noteq> CHR ''O''"
    by code_simp+
  have dig: "upper_char d \<noteq> CHR ''A''" "upper_char d \<noteq> CHR ''O''"
    using dd by (auto simp: is_digit_def digit_chars_def upper_char_def lower_letters_def upper_letters_def)
  \<comment> \<open>the first clause is passed over\<close>
  have s1: "re_split_from ?r [] (f @ ?t1) = re_split_from ?r ([] @ f) ?t1"
    by (rule re_split_skip) (rule no_separator_in_run [OF fs])
  have s2: "re_split_from ?r f ?t1 = re_split_from ?r (f @ '' = '' @ [squote]) ?t2"
    using no_separator_after_blank [of "CHR '' ''" "CHR ''=''" "CHR '' '' # squote # ?t2"]
      no_separator_nonspace [of "CHR ''='' # CHR '' '' # squote # ?t2"]
      no_separator_after_blank [of "CHR '' ''" squote ?t2]
      no_separator_nonspace [of "squote # ?t2"] marks
    by (simp add: re_split_skip1)
  have s3: "re_split_from ?r (f @ '' = '' @ [squote]) (X @ ?t3)
              = re_split_from ?r ((f @ '' = '' @ [squote]) @ X) ?t3"
  proof (rule re_split_skip)
    fix i assume "i < length X"
    then have "match_at ?r (drop i X) = None"
      using re_search_none_everywhere [OF X(2), of i] by simp
    then show "match_at ?r (drop i X @ ?t3) = None"
      by (rule no_separator_before_quote) simp
  qed
  have s4: "re_split_from ?r (f @ '' = '' @ [squote] @ X) ?t3
              = re_split_from ?r (f @ '' = '' @ [squote] @ X @ [squote]) ?t4"
    using no_separator_nonspace [of "squote # ?t4"] by (simp add: re_split_skip1)
  \<comment> \<open>the separator\<close>
  have hit: "match_at ?r ('' AND '' @ y # ys @ '' > '' @ n) = Some ([], y # ys @ '' > '' @ n)"
    using separator_hit [OF wy] by simp
  have s5: "re_split_from ?r (f @ '' = '' @ [squote] @ X @ [squote]) ?t4
              = (f @ '' = '' @ [squote] @ X @ [squote]) # re_split_from ?r [] ?p2"
    using re_split_hit [of ?r "CHR '' ''" "''AND '' @ y # ys @ '' > '' @ n" "[]" "y # ys @ '' > '' @ n"] hit
    by (simp add: gy)
  \<comment> \<open>the second clause\<close>
  have s6: "re_split_from ?r [] (g @ '' > '' @ n) = re_split_from ?r ([] @ g) ('' > '' @ n)"
    by (rule re_split_skip) (rule no_separator_in_run [OF gs])
  have s7: "re_split_from ?r g ('' > '' @ n) = re_split_from ?r (g @ '' > '') n"
    using no_separator_after_blank [of "CHR '' ''" "CHR ''>''" "CHR '' '' # n"]
      no_separator_nonspace [of "CHR ''>'' # CHR '' '' # n"]
      no_separator_after_blank [of "CHR '' ''" d ds] digit_not_space [OF dd] marks dig
    by (simp add: re_split_skip1 nd)
  have s8: "re_split_from ?r (g @ '' > '') (n @ []) = re_split_from ?r ((g @ '' > '') @ n) []"
    by (rule re_split_skip) (rule no_separator_in_run [OF ns])
  have p2: "re_split_from ?r [] ?p2 = [?p2]"
    using s6 s7 s8 by (simp add: re_split_end)
  show ?thesis
    unfolding re_split_def using s1 s2 s3 s4 s5 p2 by simp
qed

text \<open>\<^verbatim>\<open>extract_conditions\<close> on the clause text as it is written, in ASCII: for every clause of
  the form \<^verbatim>\<open>f = 'X' AND g > n\<close>, where \<open>f\<close> and \<open>g\<close> are non-empty words, \<open>n\<close> is a non-empty string of
  digits and \<open>X\<close> is non-empty, the result is exactly the two conditions \<open>(f, =, X)\<close> and
  \<open>(g, >, n)\<close>, in this order, provided that \<open>X\<close> has no quote, no \<open><\<close> and no \<open>>\<close>, that
  neither \<open>f\<close> nor \<open>X\<close> contains the letters \<^verbatim>\<open>LIKE\<close> in any case, and that \<open>X\<close> contains no
  \<^verbatim>\<open>AND\<close> or \<^verbatim>\<open>OR\<close> set off by blanks. The operator is read off the whole clause and the
  clauses are cut at every separator; the provisos keep both away from the value and the
  field.\<close>

lemma extract_conditions_two_clauses:
  assumes "is_ascii X"
    and "f \<noteq> []" and "\<forall>x \<in> set f. is_word x" and "\<not> contains ''LIKE'' (upper f)"
    and "X \<noteq> []" and "\<forall>x \<in> set X. \<not> is_quote x" and "CHR ''<'' \<notin> set X" and "CHR ''>'' \<notin> set X"
    and "\<not> contains ''LIKE'' (upper X)" and "re_search split_pattern X = None"
    and "g \<noteq> []" and "\<forall>x \<in> set g. is_word x"
    and "n \<noteq> []" and "\<forall>x \<in> set n. is_digit x"
  shows "extract_conditions (f @ '' = '' @ [squote] @ X @ [squote] @ '' AND '' @ g @ '' > '' @ n)
           = [\<lparr>c_field = f, c_operator = ''='', c_value = X\<rparr>,
              \<lparr>c_field = g, c_operator = ''>'', c_value = n\<rparr>]"
proof -
  have sp: "re_split split_pattern (f @ '' = '' @ [squote] @ X @ [squote] @ '' AND '' @ g @ '' > '' @ n)
           = [f @ '' = '' @ [squote] @ X @ [squote], g @ '' > '' @ n]"
    using assms by (intro two_clause_split)
  have c1: "clause_condition (f @ '' = '' @ [squote] @ X @ [squote])
           = Some \<lparr>c_field = f, c_operator = ''='', c_value = X\<rparr>"
    using assms by (intro first_clause)
  have c2: "clause_condition (g @ '' > '' @ n) = Some \<lparr>c_field = g, c_operator = ''>'', c_value = n\<rparr>"
    using assms by (intro second_clause)
  show ?thesis
    unfolding extract_conditions_def sp using c1 c2 by (simp add: List.map_filter_simps)
qed

lemma extract_conditions_push_notification:
  "extract_conditions (''channel = '' @ [squote] @ ''Push Notification'' @ [squote]
                         @ '' AND clicks > 5'')
     = [\<lparr>c_field = ''channel'', c_operator = ''='', c_value = ''Push Notification''\<rparr>,
        \<lparr>c_field = ''clicks'', c_operator = ''>'', c_value = ''5''\<rparr>]"
proof -
  have f: "''channel'' \<noteq> []" "\<forall>x \<in> set ''channel''. is_word x"
    "\<not> contains ''LIKE'' (upper ''channel'')"
    by code_simp+
  have X: "''Push Notification'' \<noteq> []" "\<forall>x \<in> set ''Push Notification''. \<not> is_quote x"
    "CHR ''<'' \<notin> set ''Push Notification''" "CHR ''>'' \<notin> set ''Push Notification''"
    "\<not> contains ''LIKE'' (upper ''Push Notification'')"
    "re_search split_pattern ''Push Notification'' = None"
    by code_simp+
  have g: "''clicks'' \<noteq> []" "\<forall>x \<in> set ''clicks''. is_word x" by code_simp+
  have n: "''5'' \<noteq> []" "\<forall>x \<in> set ''5''. is_digit x" by code_simp+
  have a: "is_ascii ''Push Notification''" by code_simp
  from extract_conditions_two_clauses [OF a f X g n] show ?thesis by simp
qed

text \<open>Where a proviso fails: in \<^verbatim>\<open>WHERE A = 'X>Y' AND B > 5\<close> the first clause is written with
  \<open>=\<close> and is extracted with the operator \<open>>\<close>, because its value contains that character.\<close>

lemma operator_read_off_value:
  "parse_sql_conditions (''SELECT * FROM T WHERE A = '' @ [squote] @ ''X>Y'' @ [squote] @ '' AND B > 5'')
     = Inr [\<lparr>c_field = ''A'', c_operator = ''>'', c_value = ''X>Y''\<rparr>,
            \<lparr>c_field = ''B'', c_operator = ''>'', c_value = ''5''\<rparr>] \<and>
   extract_conditions (''A = '' @ [squote] @ ''X>Y'' @ [squote] @ '' AND B > 5'')
     \<noteq> [\<lparr>c_field = ''A'', c_operator = ''='', c_value = ''X>Y''\<rparr>,
         \<lparr>c_field = ''B'', c_operator = ''>'', c_value = ''5''\<rparr>]"
  by code_simp

subsection \<open>The clause text the extractor is given\<close>

text \<open>The no-break space is whitespace for \<^verbatim>\<open>\s\<close> and \<^verbatim>\<open>str.strip\<close>: clauses are cut at an
  \<^verbatim>\<open>AND\<close> set off by it.\<close>

lemma nbsp_separator:
  "extract_conditions (''a = 1'' @ [CHR 0xA0] @ ''AND'' @ [CHR 0xA0] @ ''b > 2'')
     = [\<lparr>c_field = ''a'', c_operator = ''='', c_value = ''1''\<rparr>,
        \<lparr>c_field = ''b'', c_operator = ''>'', c_value = ''2''\<rparr>]"
  by code_simp

text \<open>C1 fails at its own example. \<^verbatim>\<open>parse_sql_conditions\<close> takes the clause text from the
  upper-cased query, so for \<^verbatim>\<open>WHERE field = 'X' AND other > 5\<close> the two conditions returned carry
  the fields \<^verbatim>\<open>FIELD\<close> and \<^verbatim>\<open>OTHER\<close>, not the field names written in the input, and for
  \<^verbatim>\<open>SELECT * FROM campaigns WHERE channel = 'Email' AND clicks > 5\<close> the fields are \<^verbatim>\<open>CHANNEL\<close> and
  \<^verbatim>\<open>CLICKS\<close> and the value is \<^verbatim>\<open>EMAIL\<close>. \<^verbatim>\<open>extract_conditions\<close> itself, given the clause text
  as it is written, returns the components as written. The filter the conditions are built
  for keeps no sample record with those of \<^verbatim>\<open>parse_sql_conditions\<close>, and the record of
  \<^verbatim>\<open>CAMP_B\<close> with the components as written.\<close>

theorem where_clause_upper_cased:
  "parse_sql_conditions (''WHERE field = '' @ [squote] @ ''X'' @ [squote] @ '' AND other > 5'')
     = Inr [\<lparr>c_field = ''FIELD'', c_operator = ''='', c_value = ''X''\<rparr>,
            \<lparr>c_field = ''OTHER'', c_operator = ''>'', c_value = ''5''\<rparr>] \<and>
   parse_sql_conditions (''SELECT * FROM campaigns WHERE channel = '' @ [squote] @ ''Email''
                           @ [squote] @ '' AND clicks > 5'')
     = Inr [\<lparr>c_field = ''CHANNEL'', c_operator = ''='', c_value = ''EMAIL''\<rparr>,
            \<lparr>c_field = ''CLICKS'', c_operator = ''>'', c_value = ''5''\<rparr>] \<and>
   extract_conditions (''channel = '' @ [squote] @ ''Email'' @ [squote] @ '' AND clicks > 5'')
     = [\<lparr>c_field = ''channel'', c_operator = ''='', c_value = ''Email''\<rparr>,
        \<lparr>c_field = ''clicks'', c_operator = ''>'', c_value = ''5''\<rparr>] \<and>
   apply_conditions example_lib sample_data
     [\<lparr>c_field = ''CHANNEL'', c_operator = ''='', c_value = ''EMAIL''\<rparr>,
      \<lparr>c_field = ''CLICKS'', c_operator = ''>'', c_value = ''5''\<rparr>] = Inr [] \<and>
   apply_conditions example_lib sample_data
     [\<lparr>c_field = ''channel'', c_operator = ''='', c_value = ''Email''\<rparr>,
      \<lparr>c_field = ''clicks'', c_operator = ''>'', c_value = ''5''\<rparr>] = Inr [sample_data ! 1]"
proof -
  have p1: "parse_sql_conditions (''WHERE field = '' @ [squote] @ ''X'' @ [squote] @ '' AND other > 5'')
     = Inr [\<lparr>c_field = ''FIELD'', c_operator = ''='', c_value = ''X''\<rparr>,
            \<lparr>c_field = ''OTHER'', c_operator = ''>'', c_value = ''5''\<rparr>]"
    by code_simp
  have p2: "parse_sql_conditions (''SELECT * FROM campaigns WHERE channel = '' @ [squote] @ ''Email''
                           @ [squote] @ '' AND clicks > 5'')
     = Inr [\<lparr>c_field = ''CHANNEL'', c_operator = ''='', c_value = ''EMAIL''\<rparr>,
            \<lparr>c_field = ''CLICKS'', c_operator = ''>'', c_value = ''5''\<rparr>]"
    by code_simp
  have e: "extract_conditions (''channel = '' @ [squote] @ ''Email'' @ [squote] @ '' AND clicks > 5'')
     = [\<lparr>c_field = ''channel'', c_operator = ''='', c_value = ''Email''\<rparr>,
        \<lparr>c_field = ''clicks'', c_operator = ''>'', c_value = ''5''\<rparr>]"
    by code_simp
  have a1: "apply_conditions example_lib sample_data
     [\<lparr>c_field = ''CHANNEL'', c_operator = ''='', c_value = ''EMAIL''\<rparr>,
      \<lparr>c_field = ''CLICKS'', c_operator = ''>'', c_value = ''5''\<rparr>] = Inr []"
    by (simp add: apply_conditions_def sample_data_def check_condition_def)
  have a2: "apply_conditions example_lib sample_data
     [\<lparr>c_field = ''channel'', c_operator = ''='', c_value = ''Email''\<rparr>,
      \<lparr>c_field = ''clicks'', c_operator = ''>'', c_value = ''5''\<rparr>] = Inr [sample_data ! 1]"
    by (simp add: apply_conditions_def sample_data_def check_condition_def example_lib_def
      numeric_def py_str_def digits_value_def is_digit_def digit_chars_def)
  show ?thesis by (intro conjI) (rule p1, rule p2, rule e, rule a1, rule a2)
qed

end
